theory Spec2Isabelle
  imports Complex_Main "HOL-Library.Sorting_Algorithms" "HOL-Library.List_Lexorder" "HOL-Library.Char_ord"
begin

section \<open>JavaScript values\<close>

text \<open>
  The renderer and the schema extractor of schema-driven-html work on plain JavaScript
  values: the input data, the alias scope and the JSON Schema under construction.
  Numbers keep the distinctions the code can observe (zero, negative zero, NaN, the
  infinities); a finite number is a rational. Strings are lists of code units below 256.
  An object is the list of its own enumerable properties in enumeration order. A lookup
  \<open>object[key]\<close> that finds no own property goes on in the prototype: the values it can
  reach there are objects of the runtime, \<open>Object.prototype\<close>, \<open>Array.prototype\<close> and
  their functions.
\<close>

datatype jsnum = Fin rat | NegZero | NaN | PosInf | NegInf

datatype builtin = ObjectPrototype | ArrayPrototype | BuiltinFunction string

datatype jsval =
    Undefined
  | Null
  | Bool bool
  | Num jsnum
  | Str string
  | Arr "jsval list"
  | Obj "(string \<times> jsval) list"
  | Builtin builtin

text \<open>What a function of the program throws. \<open>BeyondModel\<close> is not an error of the
  program: it marks the point where the schema extractor goes on to write on an object of
  the runtime (\<open>Object.prototype\<close> or a function inherited from it), or to change the
  prototype of one of its own objects. The model does not follow the program beyond that
  point.\<close>

datatype error = Error string | TypeError string | RangeError string | BeyondModel string

text \<open>\<open>value == null\<close>: the value is null or undefined.\<close>

fun nullish :: "jsval \<Rightarrow> bool" where
  "nullish Undefined = True"
| "nullish Null = True"
| "nullish _ = False"

text \<open>\<open>a ?? b\<close>\<close>

definition coalesce :: "jsval \<Rightarrow> jsval \<Rightarrow> jsval" where
  "coalesce a b = (if nullish a then b else a)"

text \<open>ToBoolean, as applied by \<open>!x\<close>, \<open>x ? a : b\<close> and \<open>if (x)\<close>.\<close>

fun toBoolean :: "jsval \<Rightarrow> bool" where
  "toBoolean Undefined = False"
| "toBoolean Null = False"
| "toBoolean (Bool b) = b"
| "toBoolean (Num n) = (n \<noteq> Fin 0 \<and> n \<noteq> NegZero \<and> n \<noteq> NaN)"
| "toBoolean (Str s) = (s \<noteq> [])"
| "toBoolean (Arr xs) = True"
| "toBoolean (Obj kvs) = True"
| "toBoolean (Builtin b) = True"

text \<open>The truthiness test the code applies to an attribute that may be missing.\<close>

fun truthyAttr :: "string option \<Rightarrow> bool" where
  "truthyAttr None = False"
| "truthyAttr (Some s) = (s \<noteq> [])"

text \<open>\<open>typeof value === "object" && value !== null && !Array.isArray(value)\<close> and
  \<open>Array.isArray(value)\<close>. \<open>Object.prototype\<close> is an object, \<open>Array.prototype\<close> is an
  array, a function is neither.\<close>

fun isPlainObject :: "jsval \<Rightarrow> bool" where
  "isPlainObject (Obj kvs) = True"
| "isPlainObject (Builtin ObjectPrototype) = True"
| "isPlainObject _ = False"

fun isArray :: "jsval \<Rightarrow> bool" where
  "isArray (Arr xs) = True"
| "isArray (Builtin ArrayPrototype) = True"
| "isArray _ = False"

section \<open>Strings\<close>

definition isSpace :: "char \<Rightarrow> bool" where
  "isSpace c \<longleftrightarrow> c \<in> set [CHR 0x09, CHR 0x0A, CHR 0x0B, CHR 0x0C, CHR 0x0D, CHR 0x20, CHR 0xA0]"

definition isDigit :: "char \<Rightarrow> bool" where
  "isDigit c \<longleftrightarrow> c \<in> set ''0123456789''"

definition isIdentStart :: "char \<Rightarrow> bool" where
  "isIdentStart c \<longleftrightarrow>
     c \<in> set ''ABCDEFGHIJKLMNOPQRSTUVWXYZabcdefghijklmnopqrstuvwxyz_$''"

definition isIdentChar :: "char \<Rightarrow> bool" where
  "isIdentChar c \<longleftrightarrow> isIdentStart c \<or> isDigit c"

definition trimStart :: "string \<Rightarrow> string" where
  "trimStart s = dropWhile isSpace s"

definition trim :: "string \<Rightarrow> string" where
  "trim s = rev (dropWhile isSpace (rev (dropWhile isSpace s)))"

text \<open>\<open>s.split(d)\<close> for a separator of one character.\<close>

fun splitChar :: "char \<Rightarrow> string \<Rightarrow> string list" where
  "splitChar d [] = [[]]"
| "splitChar d (c # cs) =
     (if c = d then [] # splitChar d cs
      else (case splitChar d cs of [] \<Rightarrow> [[c]] | p # ps \<Rightarrow> (c # p) # ps))"

text \<open>\<open>parts.join(sep)\<close>\<close>

fun joinWith :: "string \<Rightarrow> string list \<Rightarrow> string" where
  "joinWith sep [] = []"
| "joinWith sep [p] = p"
| "joinWith sep (p # q # ps) = p @ sep @ joinWith sep (q # ps)"

definition startsWith :: "string \<Rightarrow> string \<Rightarrow> bool" where
  "startsWith s p \<longleftrightarrow> take (length p) s = p"

definition endsWith :: "string \<Rightarrow> string \<Rightarrow> bool" where
  "endsWith s p \<longleftrightarrow> length p \<le> length s \<and> drop (length s - length p) s = p"

fun digitVal :: "char \<Rightarrow> nat" where
  "digitVal c = of_char c - 48"

definition natOfDigits :: "string \<Rightarrow> nat" where
  "natOfDigits s = foldl (\<lambda>n c. 10 * n + digitVal c) 0 s"

section \<open>Paths and aliases (dsl-utils)\<close>

text \<open>\<open>path.split(".").filter(Boolean)\<close>\<close>

definition normalizePath :: "string \<Rightarrow> string list" where
  "normalizePath path = filter (\<lambda>p. p \<noteq> []) (splitChar CHR ''.'' path)"

text \<open>
  \<open>parseIterationExpression\<close> matches the trimmed expression against
  \<^verbatim>\<open>^([A-Za-z_$][A-Za-z0-9_$.]*)\s+as\s+([A-Za-z_$][A-Za-z0-9_$]*)$\<close>.
  The character classes and the white space are disjoint, so the match is the
  left-to-right scan below; no match is the thrown error.
\<close>

definition matchIteration :: "string \<Rightarrow> (string \<times> string) option" where
  "matchIteration s =
     (case s of
        [] \<Rightarrow> None
      | c # cs \<Rightarrow>
          if \<not> isIdentStart c then None
          else
            let p = takeWhile (\<lambda>x. isIdentChar x \<or> x = CHR ''.'') cs;
                r1 = dropWhile (\<lambda>x. isIdentChar x \<or> x = CHR ''.'') cs;
                r2 = dropWhile isSpace r1
            in if r1 = r2 then None
               else if \<not> startsWith r2 ''as'' then None
               else
                 let r3 = drop 2 r2; r4 = dropWhile isSpace r3
                 in if r3 = r4 then None
                    else (case r4 of
                            [] \<Rightarrow> None
                          | a # as \<Rightarrow>
                              if isIdentStart a \<and> list_all isIdentChar as
                              then Some (c # p, r4) else None))"

definition parseIterationExpression :: "string \<Rightarrow> error + (string \<times> string)" where
  "parseIterationExpression expr =
     (case matchIteration (trim expr) of
        None \<Rightarrow> Inl (Error (''Invalid iteration expression: '' @ expr))
      | Some (path, alias) \<Rightarrow> Inr (path, alias))"


text \<open>
  \<open>cursor[key]\<close> on a plain object or an array: an own property, an element at a
  canonical index or the length, and otherwise what the prototype chain has under the
  name. The names are those of ECMAScript 2023 (with the legacy accessors of
  \<open>Object.prototype\<close>, as in Node.js and the browsers); \<open>__proto__\<close> is an accessor that
  answers with the prototype of the object it is read from. The code reads the
  properties of plain objects and of arrays only (\<open>getByPath\<close> tests the cursor first);
  for the other values \<open>getProp\<close> is undefined.
\<close>

definition objectPrototypeFunctions :: "string list" where
  "objectPrototypeFunctions =
     [''constructor'', ''__defineGetter__'', ''__defineSetter__'', ''hasOwnProperty'',
      ''__lookupGetter__'', ''__lookupSetter__'', ''isPrototypeOf'', ''propertyIsEnumerable'',
      ''toString'', ''valueOf'', ''toLocaleString'']"

definition arrayPrototypeFunctions :: "string list" where
  "arrayPrototypeFunctions =
     [''at'', ''concat'', ''constructor'', ''copyWithin'', ''entries'', ''every'', ''fill'',
      ''filter'', ''find'', ''findIndex'', ''findLast'', ''findLastIndex'', ''flat'', ''flatMap'',
      ''forEach'', ''includes'', ''indexOf'', ''join'', ''keys'', ''lastIndexOf'', ''map'', ''pop'',
      ''push'', ''reduce'', ''reduceRight'', ''reverse'', ''shift'', ''slice'', ''some'', ''sort'',
      ''splice'', ''toLocaleString'', ''toReversed'', ''toSorted'', ''toSpliced'', ''toString'',
      ''unshift'', ''values'', ''with'']"

text \<open>The property \<open>k\<close> as \<open>Object.prototype\<close> and as \<open>Array.prototype\<close> have it, read
  from an object whose prototype is \<open>proto\<close>.\<close>

definition fromObjectPrototype :: "jsval \<Rightarrow> string \<Rightarrow> jsval" where
  "fromObjectPrototype proto k =
     (if k = ''__proto__'' then proto
      else if k \<in> set objectPrototypeFunctions
      then Builtin (BuiltinFunction (''Object.prototype.'' @ k))
      else Undefined)"

definition fromArrayPrototype :: "jsval \<Rightarrow> string \<Rightarrow> jsval" where
  "fromArrayPrototype proto k =
     (if k \<in> set arrayPrototypeFunctions
      then Builtin (BuiltinFunction (''Array.prototype.'' @ k))
      else fromObjectPrototype proto k)"

definition arrayIndex :: "string \<Rightarrow> nat option" where
  "arrayIndex k =
     (if k \<noteq> [] \<and> list_all isDigit k \<and> (k = ''0'' \<or> hd k \<noteq> CHR ''0'')
         \<and> int (natOfDigits k) < 4294967295
      then Some (natOfDigits k) else None)"

definition arrayAt :: "jsval list \<Rightarrow> nat \<Rightarrow> jsval" where
  "arrayAt xs i = (if i < length xs then xs ! i else Undefined)"

fun getProp :: "jsval \<Rightarrow> string \<Rightarrow> jsval" where
  "getProp (Obj kvs) k =
     (case map_of kvs k of
        None \<Rightarrow> fromObjectPrototype (Builtin ObjectPrototype) k
      | Some v \<Rightarrow> v)"
| "getProp (Arr xs) k =
     (if k = ''length'' then Num (Fin (of_nat (length xs)))
      else (case arrayIndex k of
              None \<Rightarrow> fromArrayPrototype (Builtin ArrayPrototype) k
            | Some i \<Rightarrow> arrayAt xs i))"
| "getProp (Builtin ObjectPrototype) k = fromObjectPrototype Null k"
| "getProp (Builtin ArrayPrototype) k =
     (if k = ''length'' then Num (Fin 0)
      else (case arrayIndex k of
              None \<Rightarrow> fromArrayPrototype (Builtin ObjectPrototype) k
            | Some i \<Rightarrow> Undefined))"
| "getProp _ k = Undefined"

text \<open>An own property of a plain object (undefined when there is none).\<close>

fun ownProp :: "jsval \<Rightarrow> string \<Rightarrow> jsval" where
  "ownProp (Obj kvs) k = (case map_of kvs k of None \<Rightarrow> Undefined | Some v \<Rightarrow> v)"
| "ownProp _ k = Undefined"

text \<open>The lookup loop of \<open>getByPath\<close>, from the cursor over the remaining keys.\<close>

fun walkPath :: "jsval \<Rightarrow> string list \<Rightarrow> jsval" where
  "walkPath cursor [] = cursor"
| "walkPath cursor (k # ks) =
     (if \<not> isPlainObject cursor \<and> \<not> isArray cursor then Undefined
      else walkPath (getProp cursor k) ks)"

definition getByPath :: "jsval \<Rightarrow> (string \<rightharpoonup> jsval) \<Rightarrow> string \<Rightarrow> jsval" where
  "getByPath dat als path =
     (case normalizePath path of
        [] \<Rightarrow> Undefined
      | p # ps \<Rightarrow>
          (case als p of
             Some v \<Rightarrow> walkPath v ps
           | None \<Rightarrow> walkPath dat (p # ps)))"

text \<open>\<open>value.replaceAll(c, rep)\<close> for a pattern of one character and a replacement
  without substitution patterns, as \<open>escapeHtml\<close> uses it.\<close>

definition replaceAllChar :: "char \<Rightarrow> string \<Rightarrow> string \<Rightarrow> string" where
  "replaceAllChar c rep s = concat (map (\<lambda>x. if x = c then rep else [x]) s)"

definition escapeHtml :: "string \<Rightarrow> string" where
  "escapeHtml v =
     replaceAllChar CHR 0x22 ''&quot;''
       (replaceAllChar CHR ''>'' ''&gt;''
         (replaceAllChar CHR ''<'' ''&lt;''
           (replaceAllChar CHR ''&'' ''&amp;'' v)))"

definition isVoidTag :: "string \<Rightarrow> bool" where
  "isVoidTag t \<longleftrightarrow> t = ''br'' \<or> t = ''hr'' \<or> t = ''img'' \<or> t = ''meta''"

section \<open>The template tree (types)\<close>

datatype DataType = TString | TInteger | TNumber | TBoolean | TDate | TTime | TDatetime

datatype Constraint =
    CEnum "jsval list"
  | CMin jsnum
  | CMax jsnum
  | CExMin jsnum
  | CExMax jsnum
  | CStep jsnum
  | CPattern string
  | CFixed jsval
  | CMinLength jsnum
  | CMaxLength jsnum

datatype Filter = Filter (filterName: string) (filterArgs: "string list")

datatype InterpolationSegment =
  InterpolationSegment (segPath: string) (segDataType: DataType) (segNullable: bool)
    (segConstraints: "Constraint list") (segFilters: "Filter list")

datatype TextSegment = Literal string | Interpolation InterpolationSegment

datatype ElementNode =
  ElementNode (tagName: string) (attributes: "(string \<times> string) list") (children: "DslNode list")
and DslNode = Element ElementNode | Text "TextSegment list"

text \<open>\<open>node.attributes[key]\<close>\<close>

definition attr :: "ElementNode \<Rightarrow> string \<Rightarrow> string option" where
  "attr node k = map_of (attributes node) k"

record GlobalConfig =
  gcTimezone :: string
  gcExamplesDelimiter :: string

text \<open>\<open>walkElements\<close> calls the visitor on the elements in preorder.\<close>

fun walkElements :: "ElementNode \<Rightarrow> ElementNode list"
and walkElementsNode :: "DslNode \<Rightarrow> ElementNode list" where
  "walkElements (ElementNode t a cs) = ElementNode t a cs # concat (map walkElementsNode cs)"
| "walkElementsNode (Element e) = walkElements e"
| "walkElementsNode (Text segs) = []"

definition configVisitor :: "GlobalConfig \<Rightarrow> ElementNode \<Rightarrow> GlobalConfig" where
  "configVisitor config el =
     (if tagName el \<noteq> ''meta'' then config
      else
        let name = map_option trim (attr el ''name'');
            content = (case attr el ''content'' of None \<Rightarrow> [] | Some c \<Rightarrow> trim c);
            config1 = (if name = Some ''timezone'' \<and> content \<noteq> []
                       then config\<lparr>gcTimezone := content\<rparr> else config)
        in if name = Some ''semantic:examples-delimiter'' \<and> content \<noteq> []
           then config1\<lparr>gcExamplesDelimiter := content\<rparr> else config1)"

definition collectGlobalConfig :: "ElementNode \<Rightarrow> GlobalConfig" where
  "collectGlobalConfig rootNode =
     foldl configVisitor \<lparr>gcTimezone = ''UTC'', gcExamplesDelimiter = '';''\<rparr> (walkElements rootNode)"


section \<open>Built-ins of the host\<close>

text \<open>
  The filters call built-ins of the JavaScript runtime whose results depend on floating
  point formatting, on Unicode tables and on the locale and time zone data. They are
  parameters of the model: every theorem holds for any behaviour of them. \<open>localeCompare\<close>
  is a comparator (a total preorder), as \<open>Array.prototype.sort\<close> requires. Three of
  the built-ins throw a RangeError: \<open>padStart\<close> when the padded string would be longer
  than the runtime allows (the result is then \<open>None\<close>), \<open>Intl.DateTimeFormat\<close> for a time
  zone that the runtime does not know (\<open>validTimeZone\<close>), and \<open>toFixed\<close> for a digit count
  outside 0 to 100, which the model checks itself.
  \<open>toZenkaku\<close> and \<open>toHankaku\<close> shift code units by 0xFEE0, beyond the code units of
  the string type here, and are parameters as well.
\<close>

record host =
  localeCompare :: "string comparator"
  numberToString :: "jsnum \<Rightarrow> string"
  stringToNumber :: "string \<Rightarrow> jsnum"
  toUpperCase :: "string \<Rightarrow> string"
  toLowerCase :: "string \<Rightarrow> string"
  replaceAll :: "string \<Rightarrow> string \<Rightarrow> string \<Rightarrow> string"
  padStart :: "string \<Rightarrow> jsnum \<Rightarrow> string \<Rightarrow> string option"
  slice :: "string \<Rightarrow> jsnum \<Rightarrow> jsnum \<Rightarrow> string"
  numberFormat :: "jsnum \<Rightarrow> string"
  toFixed :: "jsnum \<Rightarrow> jsnum \<Rightarrow> string"
  toZenkaku :: "string \<Rightarrow> string"
  toHankaku :: "string \<Rightarrow> string"
  zonedDateParts :: "string \<Rightarrow> string \<Rightarrow> (string \<rightharpoonup> string) option"
  validTimeZone :: "string \<Rightarrow> bool"
  functionText :: "string \<Rightarrow> string"

text \<open>\<open>String(value)\<close>\<close>

fun jsString :: "host \<Rightarrow> jsval \<Rightarrow> string" where
  "jsString h Undefined = ''undefined''"
| "jsString h Null = ''null''"
| "jsString h (Bool b) = (if b then ''true'' else ''false'')"
| "jsString h (Num n) = numberToString h n"
| "jsString h (Str s) = s"
| "jsString h (Arr xs) =
     joinWith '','' (map (\<lambda>x. if nullish x then [] else jsString h x) xs)"
| "jsString h (Obj kvs) = ''[object Object]''"
| "jsString h (Builtin ObjectPrototype) = ''[object Object]''"
| "jsString h (Builtin ArrayPrototype) = []"
| "jsString h (Builtin (BuiltinFunction f)) = functionText h f"

text \<open>\<open>Number(value)\<close>\<close>

fun jsNumber :: "host \<Rightarrow> jsval \<Rightarrow> jsnum" where
  "jsNumber h Undefined = NaN"
| "jsNumber h Null = Fin 0"
| "jsNumber h (Bool b) = (if b then Fin 1 else Fin 0)"
| "jsNumber h (Num n) = n"
| "jsNumber h (Str s) = stringToNumber h s"
| "jsNumber h v = stringToNumber h (jsString h v)"

fun isFiniteNum :: "jsnum \<Rightarrow> bool" where
  "isFiniteNum (Fin q) = True"
| "isFiniteNum NegZero = True"
| "isFiniteNum _ = False"

text \<open>\<open>args[i] ?? d\<close>\<close>

definition argOr :: "string list \<Rightarrow> nat \<Rightarrow> string \<Rightarrow> string" where
  "argOr as i d = (if i < length as then as ! i else d)"

section \<open>Filters\<close>

record FilterContext =
  fcDataType :: "DataType option"
  fcTimezone :: "string option"

text \<open>\<open>format.replace(TOKEN_RE, token => tokens[token] ?? token)\<close>, scanning from the left
  with the alternatives in the order of the regular expression.\<close>

definition tokenAt :: "string \<Rightarrow> string option" where
  "tokenAt s = find (startsWith s) [''YYYY'', ''MM'', ''DD'', ''HH'', ''mm'', ''ss'']"

function applyDateTokens :: "string \<Rightarrow> (string \<rightharpoonup> string) \<Rightarrow> string" where
  "applyDateTokens [] tokens = []"
| "applyDateTokens (c # cs) tokens =
     (case tokenAt (c # cs) of
        None \<Rightarrow> c # applyDateTokens cs tokens
      | Some tok \<Rightarrow>
          (case tokens tok of None \<Rightarrow> tok | Some v \<Rightarrow> v)
            @ applyDateTokens (drop (length tok) (c # cs)) tokens)"
  by pat_completeness auto
termination
proof (relation "measure (\<lambda>(s, t). length s)")
  show "wf (measure (\<lambda>(s, t). length s))" by simp
next
  fix c :: char and cs :: string and tokens :: "string \<rightharpoonup> string"
  show "((cs, tokens), c # cs, tokens) \<in> measure (\<lambda>(s, t). length s)" by simp
next
  fix c :: char and cs tok :: string and tokens :: "string \<rightharpoonup> string"
  assume "tokenAt (c # cs) = Some tok"
  then have "tok \<in> set [''YYYY'', ''MM'', ''DD'', ''HH'', ''mm'', ''ss'']"
    unfolding tokenAt_def by (metis find_Some_iff nth_mem)
  then have "0 < length tok" by auto
  then show "((drop (length tok) (c # cs), tokens), c # cs, tokens) \<in> measure (\<lambda>(s, t). length s)"
    by simp
qed

text \<open>\<^verbatim>\<open>/^(\d{4})-(\d{2})-(\d{2})/\<close> and \<^verbatim>\<open>/^(\d{2}):(\d{2})(?::(\d{2}))?/\<close>\<close>

definition matchDate :: "string \<Rightarrow> (string \<times> string \<times> string) option" where
  "matchDate s =
     (if 10 \<le> length s \<and> list_all isDigit (take 4 s) \<and> s ! 4 = CHR ''-''
         \<and> list_all isDigit (take 2 (drop 5 s)) \<and> s ! 7 = CHR ''-''
         \<and> list_all isDigit (take 2 (drop 8 s))
      then Some (take 4 s, take 2 (drop 5 s), take 2 (drop 8 s)) else None)"

definition matchTime :: "string \<Rightarrow> (string \<times> string \<times> string option) option" where
  "matchTime s =
     (if 5 \<le> length s \<and> list_all isDigit (take 2 s) \<and> s ! 2 = CHR '':''
         \<and> list_all isDigit (take 2 (drop 3 s))
      then Some (take 2 s, take 2 (drop 3 s),
                 if 8 \<le> length s \<and> s ! 5 = CHR '':'' \<and> list_all isDigit (take 2 (drop 6 s))
                 then Some (take 2 (drop 6 s)) else None)
      else None)"

text \<open>\<^verbatim>\<open>/([+-]\d{2}:?\d{2}|Z)$/i\<close>\<close>

definition hasOffset :: "string \<Rightarrow> bool" where
  "hasOffset s \<longleftrightarrow>
     (let n = length s;
          signAt = (\<lambda>i. s ! i = CHR ''+'' \<or> s ! i = CHR ''-'')
      in (0 < n \<and> (s ! (n - 1) = CHR ''Z'' \<or> s ! (n - 1) = CHR ''z''))
         \<or> (5 \<le> n \<and> signAt (n - 5) \<and> list_all isDigit (drop (n - 4) s))
         \<or> (6 \<le> n \<and> signAt (n - 6) \<and> list_all isDigit (take 2 (drop (n - 5) s))
              \<and> s ! (n - 3) = CHR '':'' \<and> list_all isDigit (drop (n - 2) s)))"

definition formatDateValue ::
  "host \<Rightarrow> jsval \<Rightarrow> DataType option \<Rightarrow> string \<Rightarrow> string \<Rightarrow> error + string" where
  "formatDateValue h v dataType format tz =
     (if nullish v then Inr []
      else
        let source = jsString h v in
        if dataType = Some TDate then
          (case matchDate source of
             None \<Rightarrow> Inr source
           | Some (y, m, d) \<Rightarrow>
               Inr (applyDateTokens format
                 [''YYYY'' \<mapsto> y, ''MM'' \<mapsto> m, ''DD'' \<mapsto> d,
                  ''HH'' \<mapsto> ''00'', ''mm'' \<mapsto> ''00'', ''ss'' \<mapsto> ''00'']))
        else if dataType = Some TTime then
          (case matchTime source of
             None \<Rightarrow> Inr source
           | Some (hh, mi, sec) \<Rightarrow>
               Inr (applyDateTokens format
                 [''YYYY'' \<mapsto> ''0000'', ''MM'' \<mapsto> ''00'', ''DD'' \<mapsto> ''00'',
                  ''HH'' \<mapsto> hh, ''mm'' \<mapsto> mi,
                  ''ss'' \<mapsto> (case sec of None \<Rightarrow> ''00'' | Some x \<Rightarrow> x)]))
        else
          let normalized = (if hasOffset source then source else source @ ''Z'') in
          (case zonedDateParts h normalized tz of
             None \<Rightarrow> Inr source
           | Some parts \<Rightarrow>
               if validTimeZone h tz then Inr (applyDateTokens format parts)
               else Inl (RangeError (''Invalid time zone specified: '' @ tz))))"

text \<open>\<open>toFixed(digits)\<close> throws a RangeError unless the digits, truncated to an integer
  (NaN counting as 0), lie between 0 and 100.\<close>

definition fixedDigitsOK :: "jsnum \<Rightarrow> bool" where
  "fixedDigitsOK d =
     (case d of Fin q \<Rightarrow> -1 < q \<and> q < 101 | NegZero \<Rightarrow> True | NaN \<Rightarrow> True
      | PosInf \<Rightarrow> False | NegInf \<Rightarrow> False)"

definition applySingleFilter ::
  "host \<Rightarrow> jsval \<Rightarrow> Filter \<Rightarrow> FilterContext \<Rightarrow> error + jsval" where
  "applySingleFilter h v f ctx =
     (let nm = filterName f; as = filterArgs f;
          text = jsString h (coalesce v (Str []))
      in
        if nm = ''default'' then
          Inr (if nullish v then Str (argOr as 0 []) else v)
        else if nm = ''upper'' then Inr (Str (toUpperCase h text))
        else if nm = ''lower'' then Inr (Str (toLowerCase h text))
        else if nm = ''replace'' then
          Inr (Str (replaceAll h text (argOr as 0 []) (argOr as 1 [])))
        else if nm = ''pad-left'' then
          (case padStart h text (stringToNumber h (argOr as 0 ''0'')) (argOr as 1 ''0'') of
             None \<Rightarrow> Inl (RangeError ''Invalid string length'')
           | Some padded \<Rightarrow> Inr (Str padded))
        else if nm = ''slice'' then
          Inr (Str (slice h text (stringToNumber h (argOr as 0 ''0''))
                                 (stringToNumber h (argOr as 1 ''0''))))
        else if nm = ''zenkaku'' then Inr (Str (toZenkaku h text))
        else if nm = ''hankaku'' then Inr (Str (toHankaku h text))
        else if nm = ''comma'' then
          (let numeric = jsNumber h (coalesce v (Num (Fin 0)))
           in Inr (Str (if isFiniteNum numeric then numberFormat h numeric else text)))
        else if nm = ''fixed'' then
          (let digits = stringToNumber h (argOr as 0 ''0'');
               numeric = jsNumber h (coalesce v (Num (Fin 0)))
           in if isFiniteNum numeric
              then (if fixedDigitsOK digits then Inr (Str (toFixed h numeric digits))
                    else Inl (RangeError ''toFixed() digits argument must be between 0 and 100''))
              else Inr (Str text))
        else if nm = ''either'' then
          Inr (Str (if toBoolean v then argOr as 0 [] else argOr as 1 []))
        else if nm = ''date-format'' then
          (case formatDateValue h v (fcDataType ctx) (argOr as 0 ''YYYY-MM-DD'')
                  (case fcTimezone ctx of None \<Rightarrow> ''UTC'' | Some tz \<Rightarrow> tz) of
             Inl e \<Rightarrow> Inl e
           | Inr formatted \<Rightarrow> Inr (Str formatted))
        else Inl (Error (''Unknown filter: '' @ nm)))"

text \<open>\<open>filters.reduce(...)\<close>: from the left, the first thrown error ends the chain.\<close>

fun applyFilters :: "host \<Rightarrow> jsval \<Rightarrow> Filter list \<Rightarrow> FilterContext \<Rightarrow> error + jsval" where
  "applyFilters h v [] ctx = Inr v"
| "applyFilters h v (f # fs) ctx =
     (case applySingleFilter h v f ctx of
        Inl e \<Rightarrow> Inl e
      | Inr w \<Rightarrow> applyFilters h w fs ctx)"



section \<open>The renderer\<close>

record RenderContext =
  ctxData :: jsval
  ctxAliases :: "string \<rightharpoonup> jsval"
  ctxTimezone :: string

definition CONTROL_ATTRIBUTES :: "string list" where
  "CONTROL_ATTRIBUTES =
     [''data-page'', ''data-repeat'', ''data-if'', ''data-break-before'', ''data-break-after'',
      ''data-fixed-rows'', ''data-max-rows'', ''data-format'', ''data-semantic-description'',
      ''data-semantic-instruction'', ''data-semantic-examples'']"

text \<open>The first error of a list of results, else all the values: what a \<open>map\<close> whose
  callback may throw returns.\<close>

fun sequenceE :: "(error + 'a) list \<Rightarrow> error + 'a list" where
  "sequenceE [] = Inr []"
| "sequenceE (r # rs) =
     (case r of
        Inl e \<Rightarrow> Inl e
      | Inr x \<Rightarrow> (case sequenceE rs of Inl e \<Rightarrow> Inl e | Inr xs \<Rightarrow> Inr (x # xs)))"

definition buildRenderedAttributes :: "ElementNode \<Rightarrow> string" where
  "buildRenderedAttributes node =
     (let styleParts =
            (case attr node ''style'' of
               None \<Rightarrow> [] | Some st \<Rightarrow> if st = [] then [] else [st])
            @ (case attr node ''data-break-before'' of
               None \<Rightarrow> [] | Some b \<Rightarrow> if b = [] then [] else [''page-break-before:'' @ b])
            @ (case attr node ''data-break-after'' of
               None \<Rightarrow> [] | Some b \<Rightarrow> if b = [] then [] else [''page-break-after:'' @ b]);
          entries =
            map (\<lambda>(k, v). k @ ''='' @ [CHR 0x22] @ escapeHtml v @ [CHR 0x22])
              (filter (\<lambda>(k, v). k \<notin> set CONTROL_ATTRIBUTES \<and> k \<noteq> ''style'') (attributes node))
            @ (if styleParts \<noteq> []
               then [''style='' @ [CHR 0x22] @ escapeHtml (joinWith ''; '' styleParts) @ [CHR 0x22]]
               else [])
      in if entries \<noteq> [] then '' '' @ joinWith '' '' entries else [])"

text \<open>\<open>parseInt(s, 10)\<close>: leading white space, a sign, the longest run of digits;
  \<open>None\<close> is NaN. Negative zero is read as zero: the row counts are only compared.\<close>

definition parseInt :: "string \<Rightarrow> int option" where
  "parseInt s =
     (let t = trimStart s;
          neg = (t \<noteq> [] \<and> hd t = CHR ''-'');
          u = (if t \<noteq> [] \<and> (hd t = CHR ''-'' \<or> hd t = CHR ''+'') then tl t else t);
          ds = takeWhile isDigit u
      in if ds = [] then None
         else Some (if neg then - int (natOfDigits ds) else int (natOfDigits ds)))"

text \<open>\<open>Math.min(list.length, maxCount)\<close>, where \<open>maxCount\<close> is the parsed attribute
  (\<open>Some\<close>) or Infinity (\<open>None\<close>); the result is a number or NaN (\<open>None\<close>).\<close>

definition effectiveLengthOf :: "nat \<Rightarrow> int option option \<Rightarrow> int option" where
  "effectiveLengthOf n maxCount =
     (case maxCount of
        None \<Rightarrow> Some (int n)
      | Some None \<Rightarrow> None
      | Some (Some m) \<Rightarrow> Some (min (int n) m))"

text \<open>\<open>Math.max(effectiveLength, fixedCount)\<close>; NaN if either is.\<close>

definition totalRowsOf :: "int option \<Rightarrow> int option \<Rightarrow> int option" where
  "totalRowsOf effectiveLength fixedCount =
     (case (effectiveLength, fixedCount) of
        (Some e, Some f) \<Rightarrow> Some (max e f)
      | _ \<Rightarrow> None)"

text \<open>\<open>index < bound\<close> for a bound that may be NaN.\<close>

fun indexBelow :: "nat \<Rightarrow> int option \<Rightarrow> bool" where
  "indexBelow i None = False"
| "indexBelow i (Some b) = (int i < b)"

text \<open>The indices that \<open>for (let index = i; index < totalRows; index++)\<close> visits.\<close>

function rowIndices :: "nat \<Rightarrow> int option \<Rightarrow> nat list" where
  "rowIndices i totalRows =
     (if indexBelow i totalRows then i # rowIndices (Suc i) totalRows else [])"
  by pat_completeness auto
termination
proof (relation "measure (\<lambda>(i, t). case t of None \<Rightarrow> 0 | Some b \<Rightarrow> nat (b - int i))")
  show "wf (measure (\<lambda>(i, t). case t of None \<Rightarrow> 0 | Some b \<Rightarrow> nat (b - int i)))"
    by simp
next
  fix i :: nat and totalRows :: "int option"
  assume "indexBelow i totalRows"
  then show "((Suc i, totalRows), i, totalRows)
      \<in> measure (\<lambda>(i, t). case t of None \<Rightarrow> 0 | Some b \<Rightarrow> nat (b - int i))"
    by (cases totalRows) auto
qed

declare rowIndices.simps [simp del]

text \<open>\<open>aliases[key] = value\<close> on the alias object, whose own properties are the scope.
  The name \<open>__proto__\<close> is the accessor of \<open>Object.prototype\<close>: assigning to it sets the
  prototype of the alias object and creates no own property.\<close>

definition assignAlias :: "(string \<rightharpoonup> 'v) \<Rightarrow> string \<Rightarrow> 'v \<Rightarrow> (string \<rightharpoonup> 'v)" where
  "assignAlias als k v = (if k = ''__proto__'' then als else als(k \<mapsto> v))"

text \<open>The alias scope of one instance of an iterated element.\<close>

definition instanceAliases ::
  "(string \<rightharpoonup> jsval) \<Rightarrow> string \<Rightarrow> jsval list \<Rightarrow> int option \<Rightarrow> int option \<Rightarrow> nat
     \<Rightarrow> (string \<rightharpoonup> jsval)" where
  "instanceAliases als alias items effectiveLength totalRows i =
     assignAlias
       (assignAlias
          (assignAlias als alias (if indexBelow i effectiveLength then arrayAt items i else Obj []))
          ''$index'' (Num (Fin (of_nat i))))
       ''$page'' (Obj [(''index'', Num (Fin (of_nat i))),
                      (''number'', Num (Fin (of_nat i + 1))),
                      (''count'', Num (Fin (case totalRows of None \<Rightarrow> 0 | Some t \<Rightarrow> of_int t)))])"

text \<open>The alias scopes of the instances of an iterated element over a list, in order.\<close>

definition iterationScopes ::
  "ElementNode \<Rightarrow> (string \<rightharpoonup> jsval) \<Rightarrow> string \<Rightarrow> jsval list \<Rightarrow> (string \<rightharpoonup> jsval) list" where
  "iterationScopes node als alias items =
     (let maxRowsAttr = attr node ''data-max-rows'';
          fixedRowsAttr = attr node ''data-fixed-rows'';
          maxCount = (if truthyAttr maxRowsAttr then Some (parseInt (the maxRowsAttr)) else None);
          fixedCount = (if truthyAttr fixedRowsAttr then parseInt (the fixedRowsAttr) else Some 0);
          effectiveLength = effectiveLengthOf (length items) maxCount;
          totalRows = totalRowsOf effectiveLength fixedCount
      in map (instanceAliases als alias items effectiveLength totalRows) (rowIndices 0 totalRows))"

text \<open>The elements of a value that passes \<open>Array.isArray\<close>; \<open>Array.prototype\<close> is an
  array without elements.\<close>

fun arrayItems :: "jsval \<Rightarrow> jsval list option" where
  "arrayItems (Arr xs) = Some xs"
| "arrayItems (Builtin ArrayPrototype) = Some []"
| "arrayItems _ = None"

definition renderSegment :: "host \<Rightarrow> RenderContext \<Rightarrow> TextSegment \<Rightarrow> error + string" where
  "renderSegment h ctx segment =
     (case segment of
        Literal v \<Rightarrow> Inr (escapeHtml v)
      | Interpolation seg \<Rightarrow>
          (let resolved = getByPath (ctxData ctx) (ctxAliases ctx) (segPath seg)
           in case applyFilters h resolved (segFilters seg)
                     \<lparr>fcDataType = Some (segDataType seg), fcTimezone = Some (ctxTimezone ctx)\<rparr> of
                Inl e \<Rightarrow> Inl e
              | Inr filtered \<Rightarrow>
                  Inr (if nullish filtered then [] else escapeHtml (jsString h filtered))))"

fun renderNode :: "host \<Rightarrow> DslNode \<Rightarrow> RenderContext \<Rightarrow> error + string"
and renderElement :: "host \<Rightarrow> ElementNode \<Rightarrow> RenderContext \<Rightarrow> error + string"
and renderIteratedElement :: "host \<Rightarrow> ElementNode \<Rightarrow> string \<Rightarrow> RenderContext \<Rightarrow> error + string"
and renderElementOnce :: "host \<Rightarrow> ElementNode \<Rightarrow> RenderContext \<Rightarrow> error + string" where
  "renderNode h (Text segments) ctx =
     (case sequenceE (map (renderSegment h ctx) segments) of
        Inl e \<Rightarrow> Inl e
      | Inr parts \<Rightarrow> Inr (concat parts))"
| "renderNode h (Element node) ctx = renderElement h node ctx"
| "renderElement h node ctx =
     (if truthyAttr (attr node ''data-page'')
      then renderIteratedElement h node (the (attr node ''data-page'')) ctx
      else if truthyAttr (attr node ''data-repeat'')
      then renderIteratedElement h node (the (attr node ''data-repeat'')) ctx
      else renderElementOnce h node ctx)"
| "renderIteratedElement h node expression ctx =
     (case parseIterationExpression expression of
        Inl e \<Rightarrow> Inl e
      | Inr (path, alias) \<Rightarrow>
          (case arrayItems (getByPath (ctxData ctx) (ctxAliases ctx) path) of
             Some items \<Rightarrow>
               (case sequenceE
                       (map (\<lambda>als. renderElementOnce h node (ctx\<lparr>ctxAliases := als\<rparr>))
                          (iterationScopes node (ctxAliases ctx) alias items)) of
                  Inl e \<Rightarrow> Inl e
                | Inr rendered \<Rightarrow> Inr (concat rendered))
           | None \<Rightarrow> Inr []))"
| "renderElementOnce h (ElementNode tag attrs kids) ctx =
     (let node = ElementNode tag attrs kids;
          conditionPath = attr node ''data-if''
      in
        if truthyAttr conditionPath
           \<and> \<not> toBoolean (getByPath (ctxData ctx) (ctxAliases ctx) (the conditionPath))
        then Inr []
        else if tag = ''meta'' then Inr []
        else
          let opening = ''<'' @ tag @ buildRenderedAttributes node @ ''>'' in
          if isVoidTag tag then Inr opening
          else
            (case sequenceE (map (\<lambda>child. renderNode h child ctx) kids) of
               Inl e \<Rightarrow> Inl e
             | Inr body \<Rightarrow> Inr (opening @ concat body @ ''</'' @ tag @ ''>'')))"

definition renderAst :: "host \<Rightarrow> ElementNode \<Rightarrow> jsval \<Rightarrow> string option \<Rightarrow> error + string" where
  "renderAst h rootNode dat optTimezone =
     (let globalConfig = collectGlobalConfig rootNode
      in renderElement h rootNode
           \<lparr>ctxData = dat, ctxAliases = Map.empty,
            ctxTimezone = (case optTimezone of None \<Rightarrow> gcTimezone globalConfig | Some tz \<Rightarrow> tz)\<rparr>)"

text \<open>The attribute \<open>k\<close> of the node holds the row count \<open>n\<close>; \<open>None\<close> when the
  attribute is absent or empty.\<close>

definition rowsAttr :: "ElementNode \<Rightarrow> string \<Rightarrow> int option \<Rightarrow> bool" where
  "rowsAttr node k n \<longleftrightarrow>
     (case attr node k of
        None \<Rightarrow> n = None
      | Some s \<Rightarrow> if s = [] then n = None else n \<noteq> None \<and> parseInt s = n)"

text \<open>A host for the worked examples: \<open>localeCompare\<close> is the order of the code units,
  \<open>Number\<close> reads the decimal naturals, the text of a built-in function is
  \<^verbatim>\<open>function name() { [native code] }\<close>, and the other built-ins are inert.\<close>

definition builtinName :: "string \<Rightarrow> string" where
  "builtinName f =
     (if f = ''Object.prototype.constructor'' then ''Object''
      else if f = ''Array.prototype.constructor'' then ''Array''
      else rev (takeWhile (\<lambda>c. c \<noteq> CHR ''.'') (rev f)))"

definition plainHost :: host where
  "plainHost =
     \<lparr>localeCompare = default,
      numberToString = (\<lambda>n. []),
      stringToNumber =
        (\<lambda>s. if s \<noteq> [] \<and> list_all isDigit s then Fin (of_nat (natOfDigits s)) else NaN),
      toUpperCase = (\<lambda>s. s),
      toLowerCase = (\<lambda>s. s),
      replaceAll = (\<lambda>s a b. s),
      padStart = (\<lambda>s n f. Some s),
      slice = (\<lambda>s a b. s),
      numberFormat = (\<lambda>n. []),
      toFixed = (\<lambda>n d. []),
      toZenkaku = (\<lambda>s. s),
      toHankaku = (\<lambda>s. s),
      zonedDateParts = (\<lambda>s tz. None),
      validTimeZone = (\<lambda>tz. True),
      functionText = (\<lambda>f. ''function '' @ builtinName f @ ''() { [native code] }'')\<rparr>"

text \<open>The values that ToBoolean sends to false.\<close>

definition falsyValues :: "jsval set" where
  "falsyValues = {Bool False, Num (Fin 0), Num NegZero, Num NaN, Str [], Null, Undefined}"

text \<open>The element without its conditional attribute.\<close>

definition withoutCondition :: "ElementNode \<Rightarrow> ElementNode" where
  "withoutCondition node =
     ElementNode (tagName node) (filter (\<lambda>(k, v). k \<noteq> ''data-if'') (attributes node))
       (children node)"

section \<open>Objects as ordered property lists\<close>

text \<open>
  A JavaScript object enumerates its canonical array-index keys first, in ascending
  order, and then its other keys in the order of their creation. \<open>setProp\<close> is the
  assignment \<open>obj[k] = v\<close>: an existing property keeps its place.
\<close>

definition isIndexKey :: "string \<Rightarrow> bool" where
  "isIndexKey k \<longleftrightarrow> arrayIndex k \<noteq> None"

fun insertIndexed :: "string \<Rightarrow> 'v \<Rightarrow> (string \<times> 'v) list \<Rightarrow> (string \<times> 'v) list" where
  "insertIndexed k v [] = [(k, v)]"
| "insertIndexed k v ((k', v') # ps) =
     (if isIndexKey k' \<and> natOfDigits k' < natOfDigits k then (k', v') # insertIndexed k v ps
      else (k, v) # (k', v') # ps)"

fun updateExisting :: "string \<Rightarrow> 'v \<Rightarrow> (string \<times> 'v) list \<Rightarrow> (string \<times> 'v) list" where
  "updateExisting k v [] = []"
| "updateExisting k v ((k', v') # ps) =
     (if k' = k then (k, v) # ps else (k', v') # updateExisting k v ps)"

definition setProp :: "string \<Rightarrow> 'v \<Rightarrow> (string \<times> 'v) list \<Rightarrow> (string \<times> 'v) list" where
  "setProp k v ps =
     (if map_of ps k \<noteq> None then updateExisting k v ps
      else if isIndexKey k then insertIndexed k v ps
      else ps @ [(k, v)])"

text \<open>\<open>Object.fromEntries(entries)\<close>, and an object literal with the entries in order.\<close>

definition fromEntries :: "(string \<times> 'v) list \<Rightarrow> (string \<times> 'v) list" where
  "fromEntries es = foldl (\<lambda>obj (k, v). setProp k v obj) [] es"

function showNat :: "nat \<Rightarrow> string" where
  "showNat n =
     (if n < 10 then [char_of (48 + n)] else showNat (n div 10) @ [char_of (48 + n mod 10)])"
  by pat_completeness auto
termination
  by (relation "measure (\<lambda>n. n)") auto

declare showNat.simps [simp del]

text \<open>The own enumerable properties that a spread \<open>{...value}\<close> copies.\<close>

fun ownEntries :: "jsval \<Rightarrow> (string \<times> jsval) list" where
  "ownEntries (Obj kvs) = kvs"
| "ownEntries (Arr xs) = map (\<lambda>i. (showNat i, xs ! i)) [0..<length xs]"
| "ownEntries (Str s) = map (\<lambda>i. (showNat i, Str [s ! i])) [0..<length s]"
| "ownEntries _ = []"

text \<open>\<open>{ ...a, ...b }\<close>\<close>

definition spread :: "jsval \<Rightarrow> (string \<times> jsval) list \<Rightarrow> (string \<times> jsval) list" where
  "spread a b = fromEntries (ownEntries a @ b)"

section \<open>The schema extractor\<close>

text \<open>
  The schema is a JavaScript object that the extractor mutates in place; the model
  returns the updated object. The sub-objects that the code reaches through
  \<open>properties\<close> and \<open>items\<close> are shared with nothing else, so writing the updated
  sub-object back into its parent is what the mutation does.

  The lookups \<open>aliases[name]\<close> and \<open>properties[key]\<close> of the code see the names that
  a plain object inherits. A name of \<open>Object.prototype\<close> that is no alias is taken for
  one, and its value, a function or the prototype, becomes the resolved path: alone it is
  not a string, and \<open>normalizePath\<close> throws a TypeError; before further parts its text
  is the first part of the path. A key of \<open>Object.prototype\<close> that is not yet a property
  is found as that function: as a leaf it is spread, and a function has no enumerable
  property of its own as long as nothing has written on it; as an inner node the code
  writes \<open>properties\<close> and \<open>required\<close> on the function itself, and there the model
  stops with \<open>BeyondModel\<close>, as it does where the code assigns to \<open>__proto__\<close> and
  where a node would be an array. A primitive value in the place of a node makes the
  code throw a TypeError, as strict-mode JavaScript does when a property of a primitive
  is assigned.
\<close>

record InlineSemantic =
  semDescription :: "string option"
  semInstruction :: "string option"
  semExamples :: "string list option"

record TraverseContext =
  travAliases :: "string \<rightharpoonup> string"
  inlineSemantic :: "InlineSemantic option"

text \<open>\<open>s.split(sep)\<close> for any separator string.\<close>

function splitFrom :: "string \<Rightarrow> string \<Rightarrow> string \<Rightarrow> string list" where
  "splitFrom sep cur s =
     (if sep = [] \<or> s = [] then [cur]
      else if startsWith s sep then cur # splitFrom sep [] (drop (length sep) s)
      else splitFrom sep (cur @ [hd s]) (tl s))"
  by pat_completeness auto
termination
  by (relation "measure (\<lambda>(sep, cur, s). length s)") auto

declare splitFrom.simps [simp del]

definition splitString :: "string \<Rightarrow> string \<Rightarrow> string list" where
  "splitString s sep = (if sep = [] then map (\<lambda>c. [c]) s else splitFrom sep [] s)"

definition splitExamples :: "string \<Rightarrow> string \<Rightarrow> string list" where
  "splitExamples raw delimiter = filter (\<lambda>e. e \<noteq> []) (map trim (splitString raw delimiter))"

text \<open>The elements in the order in which the queue of \<open>collectMetaSemantics\<close> visits
  them.\<close>

fun elementChildren :: "ElementNode \<Rightarrow> ElementNode list" where
  "elementChildren (ElementNode t a cs) =
     concat (map (\<lambda>c. case c of Element e \<Rightarrow> [e] | Text segs \<Rightarrow> []) cs)"

lemma size_elementChildren [termination_simp]:
  "sum_list (map size (elementChildren e)) < size e"
proof (cases e)
  case (ElementNode t a cs)
  have "sum_list (map size (concat (map (\<lambda>c. case c of Element e \<Rightarrow> [e] | Text segs \<Rightarrow> []) cs)))
      \<le> size_list size cs"
  proof (induction cs)
    case Nil
    show ?case by simp
  next
    case (Cons c cs)
    then show ?case by (cases c) auto
  qed
  then show ?thesis using ElementNode by simp
qed

function queueOrder :: "ElementNode list \<Rightarrow> ElementNode list" where
  "queueOrder [] = []"
| "queueOrder (e # queue) = e # queueOrder (queue @ elementChildren e)"
  by pat_completeness auto
termination
proof (relation "measure (\<lambda>q. sum_list (map size q))")
  show "wf (measure (\<lambda>q. sum_list (map size q)))" by simp
next
  fix e :: ElementNode and queue :: "ElementNode list"
  show "(queue @ elementChildren e, e # queue) \<in> measure (\<lambda>q. sum_list (map size q))"
    using size_elementChildren [of e] by simp
qed

text \<open>One element of the queue. The entry \<open>map[path] ?? {}\<close> that is spread has the
  three fields of an own entry, and none of them when the name is inherited or absent;
  the assignment \<open>map[path] = ...\<close> creates no entry for the path \<open>__proto__\<close>.\<close>

definition metaStep ::
  "string \<Rightarrow> (string \<rightharpoonup> InlineSemantic) \<Rightarrow> ElementNode \<Rightarrow> (string \<rightharpoonup> InlineSemantic)" where
  "metaStep delimiter m current =
     (if tagName current \<noteq> ''meta'' then m
      else
        let name = (case attr current ''name'' of None \<Rightarrow> [] | Some n \<Rightarrow> n);
            content = (case attr current ''content'' of None \<Rightarrow> [] | Some c \<Rightarrow> c);
            entry = (\<lambda>path. case m path of
                       None \<Rightarrow> \<lparr>semDescription = None, semInstruction = None, semExamples = None\<rparr>
                     | Some s \<Rightarrow> s)
        in
          if startsWith name ''semantic-description:'' then
            (let path = drop (length ''semantic-description:'') name
             in assignAlias m path ((entry path)\<lparr>semDescription := Some content\<rparr>))
          else if startsWith name ''semantic-instruction:'' then
            (let path = drop (length ''semantic-instruction:'') name
             in assignAlias m path ((entry path)\<lparr>semInstruction := Some content\<rparr>))
          else if startsWith name ''semantic-examples:'' then
            (let path = drop (length ''semantic-examples:'') name
             in assignAlias m path
                  ((entry path)\<lparr>semExamples := Some (splitExamples content delimiter)\<rparr>))
          else m)"

definition collectMetaSemantics :: "ElementNode \<Rightarrow> string \<Rightarrow> (string \<rightharpoonup> InlineSemantic)" where
  "collectMetaSemantics rootNode delimiter =
     foldl (metaStep delimiter) Map.empty (queueOrder [rootNode])"

definition buildInlineSemantic ::
  "ElementNode \<Rightarrow> InlineSemantic option \<Rightarrow> string \<Rightarrow> InlineSemantic option" where
  "buildInlineSemantic node inherited delimiter =
     (let description = attr node ''data-semantic-description'';
          instruction = attr node ''data-semantic-instruction'';
          examplesRaw = attr node ''data-semantic-examples''
      in if \<not> truthyAttr description \<and> \<not> truthyAttr instruction \<and> \<not> truthyAttr examplesRaw
         then inherited
         else Some
           \<lparr>semDescription =
              (case description of
                 Some d \<Rightarrow> Some d
               | None \<Rightarrow> (case inherited of None \<Rightarrow> None | Some i \<Rightarrow> semDescription i)),
            semInstruction =
              (case instruction of
                 Some d \<Rightarrow> Some d
               | None \<Rightarrow> (case inherited of None \<Rightarrow> None | Some i \<Rightarrow> semInstruction i)),
            semExamples =
              (if truthyAttr examplesRaw then Some (splitExamples (the examplesRaw) delimiter)
               else (case inherited of None \<Rightarrow> None | Some i \<Rightarrow> semExamples i))\<rparr>)"

definition emptyObjectSchema :: jsval where
  "emptyObjectSchema =
     Obj [(''type'', Str ''object''), (''properties'', Obj []), (''required'', Arr [])]"

definition emptyArraySchema :: "(string \<times> jsval) list" where
  "emptyArraySchema = [(''type'', Str ''array''), (''items'', emptyObjectSchema)]"

definition mapTypeToSchema :: "DataType \<Rightarrow> bool \<Rightarrow> (string \<times> jsval) list" where
  "mapTypeToSchema dataType nullable =
     (let baseType =
            (case dataType of
               TString \<Rightarrow> ''string'' | TInteger \<Rightarrow> ''integer'' | TNumber \<Rightarrow> ''number''
             | TBoolean \<Rightarrow> ''boolean'' | TDate \<Rightarrow> ''string'' | TTime \<Rightarrow> ''string''
             | TDatetime \<Rightarrow> ''string'');
          node = [(''type'', if nullable then Arr [Str baseType, Str ''null''] else Str baseType)];
          node1 = (if dataType = TDate then setProp ''format'' (Str ''date'') node else node);
          node2 = (if dataType = TTime then setProp ''format'' (Str ''time'') node1 else node1)
      in if dataType = TDatetime then setProp ''format'' (Str ''date-time'') node2 else node2)"

fun constraintEntry :: "Constraint \<Rightarrow> string \<times> jsval" where
  "constraintEntry (CEnum vs) = (''enum'', Arr vs)"
| "constraintEntry (CMin n) = (''minimum'', Num n)"
| "constraintEntry (CMax n) = (''maximum'', Num n)"
| "constraintEntry (CExMin n) = (''exclusiveMinimum'', Num n)"
| "constraintEntry (CExMax n) = (''exclusiveMaximum'', Num n)"
| "constraintEntry (CStep n) = (''multipleOf'', Num n)"
| "constraintEntry (CPattern p) = (''pattern'', Str p)"
| "constraintEntry (CFixed v) = (''const'', v)"
| "constraintEntry (CMinLength n) = (''minLength'', Num n)"
| "constraintEntry (CMaxLength n) = (''maxLength'', Num n)"

definition buildFieldSchema ::
  "DataType \<Rightarrow> bool \<Rightarrow> Constraint list \<Rightarrow> (string \<times> jsval) list" where
  "buildFieldSchema dataType nullable constraints =
     foldl (\<lambda>node c. setProp (fst (constraintEntry c)) (snd (constraintEntry c)) node)
       (mapTypeToSchema dataType nullable) constraints"

text \<open>\<open>resolvePathWithAliases\<close>: the alias \<open>aliases[parts[0]]\<close> is an own property of
  the alias object or what it inherits; the result is a string, or the inherited value
  itself when the path has one part.\<close>

definition resolvePathWithAliases :: "host \<Rightarrow> string \<Rightarrow> (string \<rightharpoonup> string) \<Rightarrow> jsval" where
  "resolvePathWithAliases h path als =
     (case normalizePath path of
        [] \<Rightarrow> Str path
      | p # ps \<Rightarrow>
          (let aliasPath = (case als p of
                              Some a \<Rightarrow> Str a
                            | None \<Rightarrow> fromObjectPrototype (Builtin ObjectPrototype) p)
           in if \<not> toBoolean aliasPath then Str path
              else if ps = [] then aliasPath
              else Str (jsString h aliasPath @ ''.'' @ joinWith ''.'' ps)))"

text \<open>\<open>normalizePath(path)\<close> on what \<open>resolvePathWithAliases\<close> returned: a value that
  is not a string has no method \<open>split\<close>.\<close>

definition normalizePathOf :: "jsval \<Rightarrow> error + string list" where
  "normalizePathOf path =
     (case path of
        Str s \<Rightarrow> Inr (normalizePath s)
      | _ \<Rightarrow> Inl (TypeError ''path.split is not a function''))"

text \<open>\<open>ensureObjectProperties(node)\<close> returns the node and its \<open>properties\<close>, which it
  replaces by an empty object unless they are an object already.\<close>

definition ensureObjectProperties ::
  "jsval \<Rightarrow> error + ((string \<times> jsval) list \<times> (string \<times> jsval) list)" where
  "ensureObjectProperties node =
     (case node of
        Obj kvs \<Rightarrow>
          (case map_of kvs ''properties'' of
             Some (Obj ps) \<Rightarrow> Inr (kvs, ps)
           | Some (Arr xs) \<Rightarrow> Inl (BeyondModel ''the properties of a node are an array'')
           | Some (Builtin ObjectPrototype) \<Rightarrow>
               Inl (BeyondModel ''the properties of a node are an object of the runtime'')
           | Some (Builtin ArrayPrototype) \<Rightarrow>
               Inl (BeyondModel ''the properties of a node are an object of the runtime'')
           | _ \<Rightarrow> Inr (setProp ''properties'' (Obj []) kvs, []))
      | Arr xs \<Rightarrow> Inl (BeyondModel ''a node is an array'')
      | Builtin b \<Rightarrow> Inl (BeyondModel ''a node is an object of the runtime'')
      | Undefined \<Rightarrow> Inl (TypeError ''Cannot read properties of undefined'')
      | Null \<Rightarrow> Inl (TypeError ''Cannot read properties of null'')
      | _ \<Rightarrow> Inl (TypeError ''Cannot create property on a primitive value''))"

definition pushRequired :: "(string \<times> jsval) list \<Rightarrow> string \<Rightarrow> (string \<times> jsval) list" where
  "pushRequired node k =
     (let node1 = (case map_of node ''required'' of
                     Some (Arr xs) \<Rightarrow> node
                   | _ \<Rightarrow> setProp ''required'' (Arr []) node);
          required = (case map_of node1 ''required'' of Some (Arr xs) \<Rightarrow> xs | _ \<Rightarrow> [])
      in if Str k \<in> set required then node1
         else setProp ''required'' (Arr (required @ [Str k])) node1)"

text \<open>\<open>properties[key] ?? fallback\<close>, where \<open>properties\<close> is a plain object: the lookup
  follows the prototype chain.\<close>

definition propertyOr :: "(string \<times> jsval) list \<Rightarrow> string \<Rightarrow> jsval \<Rightarrow> jsval" where
  "propertyOr ps k fallback = coalesce (getProp (Obj ps) k) fallback"

text \<open>\<open>properties[key] = value\<close> creates or updates an own property, except for the key
  \<open>__proto__\<close> on an object that has no such own property: that assignment sets the
  prototype of the object.\<close>

definition assignsPrototype :: "(string \<times> jsval) list \<Rightarrow> string \<Rightarrow> bool" where
  "assignsPrototype ps k \<longleftrightarrow> k = ''__proto__'' \<and> map_of ps k = None"

definition pathKey :: "string \<Rightarrow> string" where
  "pathKey part = (if endsWith part ''[]'' then take (length part - 2) part else part)"

fun ensurePathNode ::
  "jsval \<Rightarrow> string list \<Rightarrow> (string \<times> jsval) list \<Rightarrow> bool \<Rightarrow> error + jsval" where
  "ensurePathNode current [] leafSchema required = Inr current"
| "ensurePathNode current (part # rest) leafSchema required =
     (case ensureObjectProperties current of
        Inl e \<Rightarrow> Inl e
      | Inr (node, properties) \<Rightarrow>
          if assignsPrototype properties (pathKey part)
          then Inl (BeyondModel ''the prototype of the properties of a node is assigned'')
          else if rest = [] then
            (let existing = propertyOr properties (pathKey part) (Obj []);
                 node1 = setProp ''properties''
                           (Obj (setProp (pathKey part) (Obj (spread existing leafSchema)) properties))
                           node
             in Inr (Obj (if required then pushRequired node1 (pathKey part) else node1)))
          else if endsWith part ''[]'' then
            (case propertyOr properties (pathKey part) (Obj emptyArraySchema) of
               Obj arrNode \<Rightarrow>
                 (let arrNode1 = (if \<not> toBoolean (getProp (Obj arrNode) ''items'')
                                  then setProp ''items'' emptyObjectSchema arrNode else arrNode)
                  in case ensurePathNode (getProp (Obj arrNode1) ''items'') rest leafSchema required of
                       Inl e \<Rightarrow> Inl e
                     | Inr items \<Rightarrow>
                         Inr (Obj (pushRequired
                                (setProp ''properties''
                                   (Obj (setProp (pathKey part)
                                           (Obj (setProp ''items'' items arrNode1)) properties))
                                   node)
                                (pathKey part))))
             | Arr xs \<Rightarrow> Inl (BeyondModel ''a node is an array'')
             | Builtin b \<Rightarrow> Inl (BeyondModel ''a node is an object of the runtime'')
             | _ \<Rightarrow> Inl (TypeError ''Cannot create property on a primitive value''))
          else
            (case ensurePathNode (propertyOr properties (pathKey part) emptyObjectSchema)
                    rest leafSchema required of
               Inl e \<Rightarrow> Inl e
             | Inr objNode \<Rightarrow>
                 Inr (Obj (pushRequired
                        (setProp ''properties'' (Obj (setProp (pathKey part) objNode properties)) node)
                        (pathKey part)))))"

definition ensureArrayPath :: "jsval \<Rightarrow> jsval \<Rightarrow> bool \<Rightarrow> error + jsval" where
  "ensureArrayPath schema path required =
     (case normalizePathOf path of
        Inl e \<Rightarrow> Inl e
      | Inr parts \<Rightarrow> ensurePathNode schema parts emptyArraySchema required)"

definition applyInterpolationSchema :: "jsval \<Rightarrow> jsval \<Rightarrow> InterpolationSegment \<Rightarrow> error + jsval" where
  "applyInterpolationSchema schema path interpolation =
     (case normalizePathOf path of
        Inl e \<Rightarrow> Inl e
      | Inr parts \<Rightarrow>
          ensurePathNode schema parts
            (buildFieldSchema (segDataType interpolation) (segNullable interpolation)
               (segConstraints interpolation))
            (\<not> segNullable interpolation))"

text \<open>\<open>getFieldSchema\<close> walks to the node of a path; \<open>None\<close> is its null.\<close>

fun getFieldSchemaFrom :: "jsval \<Rightarrow> string list \<Rightarrow> jsval option" where
  "getFieldSchemaFrom current [] = None"
| "getFieldSchemaFrom current (part # rest) =
     (let properties = getProp current ''properties'' in
      if \<not> toBoolean properties \<or> \<not> toBoolean (getProp properties (pathKey part)) then None
      else
        let nxt = getProp properties (pathKey part) in
        if rest = [] then Some nxt
        else if endsWith part ''[]''
        then getFieldSchemaFrom (coalesce (getProp nxt ''items'') (Obj [])) rest
        else getFieldSchemaFrom nxt rest)"

definition getFieldSchema :: "jsval \<Rightarrow> string \<Rightarrow> jsval option" where
  "getFieldSchema rootSchema path = getFieldSchemaFrom rootSchema (normalizePath path)"

definition applySemantic :: "jsval \<Rightarrow> InlineSemantic option \<Rightarrow> error + jsval" where
  "applySemantic target semantic =
     (case semantic of
        None \<Rightarrow> Inr target
      | Some sem \<Rightarrow>
          let assignments =
                (if truthyAttr (semDescription sem)
                 then [(''description'', Str (the (semDescription sem)))] else [])
                @ (if truthyAttr (semInstruction sem)
                   then [(''x-instruction'', Str (the (semInstruction sem)))] else [])
                @ (case semExamples sem of
                     None \<Rightarrow> []
                   | Some ex \<Rightarrow> if ex = [] then [] else [(''examples'', Arr (map Str ex))])
          in if assignments = [] then Inr target
             else (case target of
                     Obj kvs \<Rightarrow> Inr (Obj (foldl (\<lambda>obj (k, v). setProp k v obj) kvs assignments))
                   | Arr xs \<Rightarrow> Inl (BeyondModel ''a node is an array'')
                   | Builtin b \<Rightarrow> Inl (BeyondModel ''a node is an object of the runtime'')
                   | _ \<Rightarrow> Inl (TypeError ''Cannot create property on a primitive value'')))"

text \<open>
  The code takes the node from \<open>getFieldSchema\<close> and assigns to it. \<open>updateFieldSchema\<close>
  follows the same walk and puts the result of \<open>f\<close> in the place of that node; where the
  walk finds nothing, the schema is unchanged. A value that the walk finds under an
  inherited name is an object of the runtime: as the last node \<open>f\<close> is applied to it (and
  writes on it or leaves it), and as an inner node it has no properties, so that the
  walk finds nothing.
\<close>

fun updateFieldSchema ::
  "(jsval \<Rightarrow> error + jsval) \<Rightarrow> jsval \<Rightarrow> string list \<Rightarrow> error + jsval" where
  "updateFieldSchema f current [] = Inr current"
| "updateFieldSchema f current (part # rest) =
     (let properties = getProp current ''properties'' in
      if \<not> toBoolean properties \<or> \<not> toBoolean (getProp properties (pathKey part))
      then Inr current
      else
        (case (current, properties) of
           (Obj node, Obj ps) \<Rightarrow>
             (let nxt = getProp properties (pathKey part) in
              if map_of ps (pathKey part) = None then
                (if rest = [] then (case f nxt of Inl e \<Rightarrow> Inl e | Inr nxt1 \<Rightarrow> Inr current)
                 else Inr current)
              else if rest = [] then
                (case f nxt of
                   Inl e \<Rightarrow> Inl e
                 | Inr nxt1 \<Rightarrow>
                     Inr (Obj (setProp ''properties'' (Obj (setProp (pathKey part) nxt1 ps)) node)))
              else if endsWith part ''[]'' then
                (if nullish (getProp nxt ''items'') then Inr current
                 else
                   (case (nxt, updateFieldSchema f (getProp nxt ''items'') rest) of
                      (_, Inl e) \<Rightarrow> Inl e
                    | (Obj arrNode, Inr items) \<Rightarrow>
                        Inr (Obj (setProp ''properties''
                                    (Obj (setProp (pathKey part)
                                            (Obj (setProp ''items'' items arrNode)) ps))
                                    node))
                    | (_, Inr items) \<Rightarrow> Inl (BeyondModel ''a node is an array'')))
              else
                (case updateFieldSchema f nxt rest of
                   Inl e \<Rightarrow> Inl e
                 | Inr nxt1 \<Rightarrow>
                     Inr (Obj (setProp ''properties'' (Obj (setProp (pathKey part) nxt1 ps)) node))))
         | _ \<Rightarrow> Inl (BeyondModel ''the properties of a node are not a plain object'')))"

text \<open>One interpolation segment of a text node: the leaf schema, then the semantics
  from the head and from the enclosing elements. A name that \<open>metaSemantics\<close> inherits
  has none of the three fields, like an absent one.\<close>

definition walkSegment ::
  "host \<Rightarrow> jsval \<Rightarrow> TraverseContext \<Rightarrow> (string \<rightharpoonup> InlineSemantic) \<Rightarrow> TextSegment
     \<Rightarrow> error + jsval" where
  "walkSegment h schema ctx metaSemantics segment =
     (case segment of
        Literal v \<Rightarrow> Inr schema
      | Interpolation seg \<Rightarrow>
          (let resolvedPath = resolvePathWithAliases h (segPath seg) (travAliases ctx)
           in case applyInterpolationSchema schema resolvedPath seg of
                Inl e \<Rightarrow> Inl e
              | Inr schema1 \<Rightarrow>
                  (case normalizePathOf resolvedPath of
                     Inl e \<Rightarrow> Inl e
                   | Inr parts \<Rightarrow>
                       updateFieldSchema
                         (\<lambda>fieldSchema.
                            case applySemantic fieldSchema
                                   (metaSemantics (jsString h resolvedPath)) of
                              Inl e \<Rightarrow> Inl e
                            | Inr fieldSchema1 \<Rightarrow> applySemantic fieldSchema1 (inlineSemantic ctx))
                         schema1 parts)))"

text \<open>A loop that threads the schema through its steps and stops at the first error.\<close>

fun foldE :: "('s \<Rightarrow> 'a \<Rightarrow> error + 's) \<Rightarrow> 's \<Rightarrow> 'a list \<Rightarrow> error + 's" where
  "foldE f s [] = Inr s"
| "foldE f s (x # xs) = (case f s x of Inl e \<Rightarrow> Inl e | Inr s1 \<Rightarrow> foldE f s1 xs)"

text \<open>The iteration attribute of an element: the array node and the alias.\<close>

definition walkIteration ::
  "host \<Rightarrow> string option \<Rightarrow> jsval \<times> TraverseContext \<Rightarrow> error + (jsval \<times> TraverseContext)" where
  "walkIteration h expr st =
     (if \<not> truthyAttr expr then Inr st
      else
        (case parseIterationExpression (the expr) of
           Inl e \<Rightarrow> Inl e
         | Inr (ppath, palias) \<Rightarrow>
             (let path = resolvePathWithAliases h ppath (travAliases (snd st))
              in case ensureArrayPath (fst st) path True of
                   Inl e \<Rightarrow> Inl e
                 | Inr schema1 \<Rightarrow>
                     Inr (schema1,
                          (snd st)\<lparr>travAliases :=
                                     assignAlias (travAliases (snd st)) palias
                                       (jsString h path @ ''[]'')\<rparr>))))"

definition walkCondition ::
  "host \<Rightarrow> string option \<Rightarrow> jsval \<Rightarrow> TraverseContext \<Rightarrow> error + jsval" where
  "walkCondition h condition schema ctx =
     (if \<not> truthyAttr condition then Inr schema
      else
        (let conditionPath = resolvePathWithAliases h (the condition) (travAliases ctx)
         in applyInterpolationSchema schema conditionPath
              (InterpolationSegment (jsString h conditionPath) TBoolean False [] [])))"

fun walkNode ::
  "host \<Rightarrow> DslNode \<Rightarrow> jsval \<Rightarrow> TraverseContext \<Rightarrow> (string \<rightharpoonup> InlineSemantic) \<Rightarrow> string
     \<Rightarrow> error + jsval"
and walkElement ::
  "host \<Rightarrow> ElementNode \<Rightarrow> jsval \<Rightarrow> TraverseContext \<Rightarrow> (string \<rightharpoonup> InlineSemantic) \<Rightarrow> string
     \<Rightarrow> error + jsval"
and walkChildren ::
  "host \<Rightarrow> DslNode list \<Rightarrow> jsval \<Rightarrow> TraverseContext \<Rightarrow> (string \<rightharpoonup> InlineSemantic) \<Rightarrow> string
     \<Rightarrow> error + jsval"
where
  "walkNode h (Text segments) schema ctx metaSemantics examplesDelimiter =
     foldE (\<lambda>s segment. walkSegment h s ctx metaSemantics segment) schema segments"
| "walkNode h (Element node) schema ctx metaSemantics examplesDelimiter =
     walkElement h node schema ctx metaSemantics examplesDelimiter"
| "walkElement h (ElementNode tag attrs kids) schema ctx metaSemantics examplesDelimiter =
     (let node = ElementNode tag attrs kids in
      if tag = ''meta'' then Inr schema
      else
        (let nextContext =
               \<lparr>travAliases = travAliases ctx,
                inlineSemantic = buildInlineSemantic node (inlineSemantic ctx) examplesDelimiter\<rparr>
         in case walkIteration h (attr node ''data-page'') (schema, nextContext) of
              Inl e \<Rightarrow> Inl e
            | Inr st1 \<Rightarrow>
                (case walkIteration h (attr node ''data-repeat'') st1 of
                   Inl e \<Rightarrow> Inl e
                 | Inr st2 \<Rightarrow>
                     (case walkCondition h (attr node ''data-if'') (fst st2) (snd st2) of
                        Inl e \<Rightarrow> Inl e
                      | Inr schema3 \<Rightarrow>
                          walkChildren h kids schema3 (snd st2) metaSemantics examplesDelimiter))))"
| "walkChildren h [] schema ctx metaSemantics examplesDelimiter = Inr schema"
| "walkChildren h (child # rest) schema ctx metaSemantics examplesDelimiter =
     (case walkNode h child schema ctx metaSemantics examplesDelimiter of
        Inl e \<Rightarrow> Inl e
      | Inr schema1 \<Rightarrow> walkChildren h rest schema1 ctx metaSemantics examplesDelimiter)"

text \<open>\<open>[...nested].sort()\<close>: by the code units of the elements as strings, undefined
  last.\<close>

definition defaultSort :: "host \<Rightarrow> jsval list \<Rightarrow> jsval list" where
  "defaultSort h xs =
     sort (key (jsString h) default) (filter (\<lambda>x. x \<noteq> Undefined) xs)
       @ filter (\<lambda>x. x = Undefined) xs"

function stableSortObject :: "host \<Rightarrow> jsval \<Rightarrow> jsval" where
  "stableSortObject h (Arr xs) = Arr (map (stableSortObject h) xs)"
| "stableSortObject h (Obj kvs) =
     Obj (fromEntries
            (map (\<lambda>(k, nested).
                    if k = ''required'' \<and> isArray nested
                    then (k, Arr (defaultSort h (case nested of Arr xs \<Rightarrow> xs | _ \<Rightarrow> [])))
                    else (k, stableSortObject h nested))
               (sort (key fst (localeCompare h)) kvs)))"
| "stableSortObject h Undefined = Undefined"
| "stableSortObject h Null = Null"
| "stableSortObject h (Bool b) = Bool b"
| "stableSortObject h (Num n) = Num n"
| "stableSortObject h (Str s) = Str s"
| "stableSortObject h (Builtin ObjectPrototype) = Obj []"
| "stableSortObject h (Builtin ArrayPrototype) = Arr []"
| "stableSortObject h (Builtin (BuiltinFunction f)) = Builtin (BuiltinFunction f)"
  by pat_completeness auto
termination
proof (relation "measure (\<lambda>(h, v). size v)")
  show "wf (measure (\<lambda>(h, v). size v))" by simp
next
  fix h :: host and xs :: "jsval list" and x :: jsval
  assume "x \<in> set xs"
  then have "size x \<le> size_list size xs" by (simp add: size_list_estimation')
  then show "((h, x), h, Arr xs) \<in> measure (\<lambda>(h, v). size v)" by simp
next
  fix h :: host and kvs :: "(string \<times> jsval) list" and x :: "string \<times> jsval"
    and k :: string and nested :: jsval
  assume x: "x \<in> set (sort (key fst (localeCompare h)) kvs)" and kn: "(k, nested) = x"
    and "\<not> (k = ''required'' \<and> isArray nested)"
  from x kn have "(k, nested) \<in> set kvs" by simp
  then have "size_prod (\<lambda>_. 0) size (k, nested) \<le> size_list (size_prod (\<lambda>_. 0) size) kvs"
    by (simp add: size_list_estimation')
  then show "((h, nested), h, Obj kvs) \<in> measure (\<lambda>(h, v). size v)" by simp
qed

text \<open>The value that \<open>stableSortObject\<close> stores under a key.\<close>

definition sortedValue :: "host \<Rightarrow> string \<Rightarrow> jsval \<Rightarrow> jsval" where
  "sortedValue h k nested =
     (if k = ''required'' \<and> isArray nested
      then Arr (defaultSort h (case nested of Arr xs \<Rightarrow> xs | _ \<Rightarrow> []))
      else stableSortObject h nested)"

definition extractSchemaFromAst :: "host \<Rightarrow> ElementNode \<Rightarrow> string option \<Rightarrow> error + jsval" where
  "extractSchemaFromAst h rootNode optExamplesDelimiter =
     (let globalConfig = collectGlobalConfig rootNode;
          examplesDelimiter = (case optExamplesDelimiter of
                                 None \<Rightarrow> gcExamplesDelimiter globalConfig | Some d \<Rightarrow> d);
          metaSemantics = collectMetaSemantics rootNode examplesDelimiter;
          schema = Obj [(''$schema'', Str ''https://json-schema.org/draft/2020-12/schema''),
                        (''type'', Str ''object''),
                        (''properties'', Obj []),
                        (''required'', Arr [])]
      in case walkElement h rootNode schema
                \<lparr>travAliases = Map.empty, inlineSemantic = None\<rparr> metaSemantics examplesDelimiter of
           Inl e \<Rightarrow> Inl e
         | Inr schema1 \<Rightarrow> Inr (stableSortObject h schema1))"

section \<open>The parser of filters\<close>











section \<open>Reading a schema\<close>

text \<open>The required list of a schema node (empty when it has none).\<close>

definition requiredOf :: "jsval \<Rightarrow> jsval list" where
  "requiredOf node = (case ownProp node ''required'' of Arr xs \<Rightarrow> xs | _ \<Rightarrow> [])"

text \<open>The schema of property \<open>k\<close> of a node.\<close>

definition propertyOf :: "jsval \<Rightarrow> string \<Rightarrow> jsval" where
  "propertyOf node k = ownProp (ownProp node ''properties'') k"

text \<open>The object in which the extractor looks up the part that follows the given
  parts: through \<open>properties\<close>, and through \<open>items\<close> after a part that ends in []. \<close>

definition childAt :: "jsval \<Rightarrow> string \<Rightarrow> jsval" where
  "childAt current part =
     (if endsWith part ''[]''
      then ownProp (propertyOf current (pathKey part)) ''items''
      else propertyOf current (pathKey part))"

fun schemaAt :: "jsval \<Rightarrow> string list \<Rightarrow> jsval" where
  "schemaAt current [] = current"
| "schemaAt current (part # rest) = schemaAt (childAt current part) rest"

text \<open>A type that is a union of one type and null.\<close>

fun isNullableType :: "jsval \<Rightarrow> bool" where
  "isNullableType (Arr [Str b, Str n]) = (n = ''null'')"
| "isNullableType _ = False"

text \<open>A node with children of its own: an object node or an array node.\<close>

definition hasChildren :: "jsval \<Rightarrow> bool" where
  "hasChildren node \<longleftrightarrow>
     ownProp node ''properties'' \<noteq> Undefined \<or> ownProp node ''items'' \<noteq> Undefined"

text \<open>The invariant of the schema under construction. Every node is an object with
  distinct keys; its required list, if any, is a list of strings; its properties are
  nodes, and a property that is not in the required list has a nullable type and no
  children; its items are a node.\<close>

fun isStringList :: "jsval \<Rightarrow> bool" where
  "isStringList (Arr xs) = list_all (\<lambda>x. case x of Str s \<Rightarrow> True | _ \<Rightarrow> False) xs"
| "isStringList _ = False"

definition childOK :: "jsval list \<Rightarrow> string \<Rightarrow> jsval \<Rightarrow> bool" where
  "childOK required k n \<longleftrightarrow>
     (Str k \<notin> set required \<longrightarrow> isNullableType (ownProp n ''type'') \<and> \<not> hasChildren n)"

definition localOK :: "(string \<times> jsval) list \<Rightarrow> bool" where
  "localOK kvs \<longleftrightarrow>
     (case map_of kvs ''required'' of None \<Rightarrow> True | Some r \<Rightarrow> isStringList r)
     \<and> (case map_of kvs ''properties'' of
          Some (Obj ps) \<Rightarrow> (\<forall>(k, n) \<in> set ps. childOK (requiredOf (Obj kvs)) k n)
        | _ \<Rightarrow> True)"

function wfS :: "bool \<Rightarrow> jsval \<Rightarrow> bool" where
  "wfS isNode (Obj kvs) =
     (distinct (map fst kvs) \<and> (isNode \<longrightarrow> localOK kvs)
      \<and> (\<forall>(k, v) \<in> set kvs.
            if isNode then (k = ''properties'' \<longrightarrow> wfS False v) \<and> (k = ''items'' \<longrightarrow> wfS True v)
            else wfS True v))"
| "wfS isNode Undefined = False"
| "wfS isNode Null = False"
| "wfS isNode (Bool b) = False"
| "wfS isNode (Num n) = False"
| "wfS isNode (Str s) = False"
| "wfS isNode (Arr xs) = False"
| "wfS isNode (Builtin b) = False"
  by pat_completeness auto
termination
proof (relation "measure (\<lambda>(m, v). size v)")
  show "wf (measure (\<lambda>(m, v). size v))" by simp
next
  fix isNode :: bool and kvs :: "(string \<times> jsval) list" and x :: "string \<times> jsval"
    and k :: string and v :: jsval
  assume "x \<in> set kvs" and "(k, v) = x"
  then have "(k, v) \<in> set kvs" by simp
  then have "size_prod (\<lambda>_. 0) size (k, v) \<le> size_list (size_prod (\<lambda>_. 0) size) kvs"
    by (simp add: size_list_estimation')
  then have "size v < size (Obj kvs)" by simp
  then show "((False, v), isNode, Obj kvs) \<in> measure (\<lambda>(m, v). size v)"
    and "((True, v), isNode, Obj kvs) \<in> measure (\<lambda>(m, v). size v)"
    and "((True, v), isNode, Obj kvs) \<in> measure (\<lambda>(m, v). size v)" by simp_all
qed

text \<open>An admissible leaf schema: its keys are distinct, it has no required list and no
  properties, and its items, if any, satisfy the invariant.\<close>

definition leafOK :: "(string \<times> jsval) list \<Rightarrow> bool" where
  "leafOK leaf \<longleftrightarrow>
     distinct (map fst leaf)
     \<and> map_of leaf ''required'' = None \<and> map_of leaf ''properties'' = None
     \<and> (case map_of leaf ''items'' of None \<Rightarrow> True | Some v \<Rightarrow> wfS True v)"

text \<open>The leaf schema of a path that is not marked required is a nullable field.\<close>

definition leafFits :: "(string \<times> jsval) list \<Rightarrow> bool \<Rightarrow> bool" where
  "leafFits leaf required \<longleftrightarrow>
     leafOK leaf
     \<and> (\<not> required \<longrightarrow> isNullableType (ownProp (Obj leaf) ''type'') \<and> map_of leaf ''items'' = None)"

text \<open>The ways in which the traversal ends without a schema: an error of
  \<open>parseIterationExpression\<close>, the TypeError of \<open>normalizePath\<close> on a resolved path that
  is not a string, and the points where the model stops.\<close>

definition stopsTraversal :: "error \<Rightarrow> bool" where
  "stopsTraversal e \<longleftrightarrow>
     (case e of
        Error m \<Rightarrow> startsWith m ''Invalid iteration expression: ''
      | TypeError m \<Rightarrow> m = ''path.split is not a function''
      | RangeError m \<Rightarrow> False
      | BeyondModel m \<Rightarrow> True)"

text \<open>A step on the schema keeps the invariant, the type and the kind of a node; on an
  object of the runtime it does nothing, or the model stops.\<close>

definition keepsNode :: "(jsval \<Rightarrow> error + jsval) \<Rightarrow> bool" where
  "keepsNode f \<longleftrightarrow>
     (\<forall>n. wfS True n \<longrightarrow>
        (\<exists>n'. f n = Inr n' \<and> wfS True n' \<and> ownProp n' ''type'' = ownProp n ''type''
             \<and> hasChildren n' = hasChildren n))
     \<and> (\<forall>b. case f (Builtin b) of Inl e \<Rightarrow> stopsTraversal e | Inr n' \<Rightarrow> True)"

text \<open>The outcome of a step on a node: an end of the traversal, or a node of the same
  type and kind that satisfies the invariant.\<close>

definition keptResult :: "jsval \<Rightarrow> error + jsval \<Rightarrow> bool" where
  "keptResult n r \<longleftrightarrow>
     (case r of
        Inl e \<Rightarrow> stopsTraversal e
      | Inr n' \<Rightarrow> wfS True n' \<and> ownProp n' ''type'' = ownProp n ''type''
                  \<and> hasChildren n' = hasChildren n)"

text \<open>The outcome of a step of the traversal: one of these ends, or a schema that
  satisfies the invariant.\<close>

definition okResult :: "error + jsval \<Rightarrow> bool" where
  "okResult r \<longleftrightarrow> (case r of Inl e \<Rightarrow> stopsTraversal e | Inr s \<Rightarrow> wfS True s)"

section \<open>Canonical form\<close>

text \<open>The order in which a JavaScript object built by \<open>Object.fromEntries\<close> from
  entries sorted with \<open>localeCompare\<close> enumerates its keys: the canonical array indices
  in ascending order, then the other keys in the order of \<open>localeCompare\<close>.\<close>

definition keysOrdered :: "host \<Rightarrow> string list \<Rightarrow> bool" where
  "keysOrdered h ks \<longleftrightarrow>
     ks = filter isIndexKey ks @ filter (\<lambda>k. \<not> isIndexKey k) ks
     \<and> sorted_wrt (\<lambda>a b. natOfDigits a \<le> natOfDigits b) (filter isIndexKey ks)
     \<and> sorted (localeCompare h) (filter (\<lambda>k. \<not> isIndexKey k) ks)"

text \<open>The order of \<open>Array.prototype.sort\<close> without a comparator.\<close>

definition defaultSorted :: "host \<Rightarrow> jsval list \<Rightarrow> bool" where
  "defaultSorted h xs \<longleftrightarrow>
     xs = filter (\<lambda>x. x \<noteq> Undefined) xs @ filter (\<lambda>x. x = Undefined) xs
     \<and> sorted (key (jsString h) default) (filter (\<lambda>x. x \<noteq> Undefined) xs)"

text \<open>Deep-sorted: the keys of every object are in order, and every array under a key
  \<open>required\<close> is sorted.\<close>

function canonical :: "host \<Rightarrow> jsval \<Rightarrow> bool" where
  "canonical h (Obj kvs) =
     (keysOrdered h (map fst kvs)
      \<and> (\<forall>(k, v) \<in> set kvs.
            if k = ''required'' \<and> isArray v
            then defaultSorted h (case v of Arr xs \<Rightarrow> xs | _ \<Rightarrow> [])
            else canonical h v))"
| "canonical h (Arr xs) = (\<forall>x \<in> set xs. canonical h x)"
| "canonical h Undefined = True"
| "canonical h Null = True"
| "canonical h (Bool b) = True"
| "canonical h (Num n) = True"
| "canonical h (Str s) = True"
| "canonical h (Builtin b) = True"
  by pat_completeness auto
termination
proof (relation "measure (\<lambda>(h, v). size v)")
  show "wf (measure (\<lambda>(h, v). size v))" by simp
next
  fix h :: host and kvs :: "(string \<times> jsval) list" and x :: "string \<times> jsval"
    and k :: string and v :: jsval
  assume "x \<in> set kvs" and "(k, v) = x"
  then have "(k, v) \<in> set kvs" by simp
  then have "size_prod (\<lambda>_. 0) size (k, v) \<le> size_list (size_prod (\<lambda>_. 0) size) kvs"
    by (simp add: size_list_estimation')
  then show "((h, v), h, Obj kvs) \<in> measure (\<lambda>(h, v). size v)" by simp
next
  fix h :: host and xs :: "jsval list" and x :: jsval
  assume "x \<in> set xs"
  then have "size x \<le> size_list size xs" by (simp add: size_list_estimation')
  then show "((h, x), h, Arr xs) \<in> measure (\<lambda>(h, v). size v)" by simp
qed

section \<open>Worked examples\<close>

text \<open>\<^verbatim>\<open><section data-page="contracts as contract"><li data-repeat="contract.items as item">{{ item.name:string }}</li></section>\<close>\<close>

definition nestedTemplate :: ElementNode where
  "nestedTemplate =
     ElementNode ''section'' [(''data-page'', ''contracts as contract'')]
       [Element (ElementNode ''li'' [(''data-repeat'', ''contract.items as item'')]
          [Text [Interpolation (InterpolationSegment ''item.name'' TString False [] [])]])]"

text \<open>\<^verbatim>\<open><p>{{ note:string }}{{ note:string? }}</p>\<close>\<close>

definition twiceTemplate :: ElementNode where
  "twiceTemplate =
     ElementNode ''p'' []
       [Text [Interpolation (InterpolationSegment ''note'' TString False [] []),
              Interpolation (InterpolationSegment ''note'' TString True [] [])]]"

text \<open>The schemas that the traversal builds for the two templates, before the final
  sort.\<close>

definition nestedWalked :: jsval where
  "nestedWalked =
     Obj [(''$schema'', Str ''https://json-schema.org/draft/2020-12/schema''),
          (''type'', Str ''object''),
          (''properties'',
           Obj [(''contracts'',
                 Obj [(''type'', Str ''array''),
                      (''items'',
                       Obj [(''type'', Str ''object''),
                            (''properties'',
                             Obj [(''items'',
                                   Obj [(''type'', Str ''array''),
                                        (''items'',
                                         Obj [(''type'', Str ''object''),
                                              (''properties'',
                                               Obj [(''name'', Obj [(''type'', Str ''string'')])]),
                                              (''required'', Arr [Str ''name''])])])]),
                            (''required'', Arr [Str ''items''])])])]),
          (''required'', Arr [Str ''contracts''])]"

definition twiceWalked :: jsval where
  "twiceWalked =
     Obj [(''$schema'', Str ''https://json-schema.org/draft/2020-12/schema''),
          (''type'', Str ''object''),
          (''properties'',
           Obj [(''note'', Obj [(''type'', Arr [Str ''string'', Str ''null''])])]),
          (''required'', Arr [Str ''note''])]"

text \<open>\<^verbatim>\<open><section data-page="contracts as contract"><li data-repeat="contract.items as item">{{ item.name:string }}</li><li data-repeat="contract.items as item">more</li></section>\<close>\<close>

definition repeatedTemplate :: ElementNode where
  "repeatedTemplate =
     ElementNode ''section'' [(''data-page'', ''contracts as contract'')]
       [Element (ElementNode ''li'' [(''data-repeat'', ''contract.items as item'')]
          [Text [Interpolation (InterpolationSegment ''item.name'' TString False [] [])]]),
        Element (ElementNode ''li'' [(''data-repeat'', ''contract.items as item'')]
          [Text [Literal ''more'']])]"

text \<open>\<^verbatim>\<open><p>{{ x.constructor:string? }}{{ a.constructor.b:string }}</p>\<close>\<close>

definition inheritedTemplate :: ElementNode where
  "inheritedTemplate =
     ElementNode ''p'' []
       [Text [Interpolation (InterpolationSegment ''x.constructor'' TString True [] []),
              Interpolation (InterpolationSegment ''a.constructor.b'' TString False [] [])]]"

text \<open>The schema that the traversal builds for \<open>repeatedTemplate\<close>, before the final
  sort.\<close>

definition repeatedWalked :: jsval where
  "repeatedWalked =
     Obj [(''$schema'', Str ''https://json-schema.org/draft/2020-12/schema''),
          (''type'', Str ''object''),
          (''properties'',
           Obj [(''contracts'',
                 Obj [(''type'', Str ''array''),
                      (''items'',
                       Obj [(''type'', Str ''object''),
                            (''properties'',
                             Obj [(''items'',
                                   Obj [(''type'', Str ''array''),
                                        (''items'',
                                         Obj [(''type'', Str ''object''),
                                              (''properties'', Obj []),
                                              (''required'', Arr [])])])]),
                            (''required'', Arr [Str ''items''])])])]),
          (''required'', Arr [Str ''contracts''])]"

section \<open>Properties of the renderer\<close>

lemma rowIndices_Some: "rowIndices i (Some t) = [i..<nat t]"
proof (induction i "Some t" rule: rowIndices.induct)
  case (1 i)
  show ?case
  proof (cases "int i < t")
    case True
    then have "rowIndices i (Some t) = i # rowIndices (Suc i) (Some t)"
      by (subst rowIndices.simps) simp
    also have "\<dots> = i # [Suc i..<nat t]" using 1 True by simp
    also have "\<dots> = [i..<nat t]" using True by (simp add: upt_conv_Cons)
    finally show ?thesis .
  next
    case False
    then show ?thesis by (subst rowIndices.simps) simp
  qed
qed

lemma rowIndices_None: "rowIndices i None = []"
  by (subst rowIndices.simps) simp

lemma walkPath_Undefined: "walkPath Undefined ks = Undefined"
  by (cases ks) auto

lemma walkPath_empty_object:
  "walkPath (Obj []) (k # ks) = walkPath (fromObjectPrototype (Builtin ObjectPrototype) k) ks"
  by simp

lemma fromObjectPrototype_other:
  "k \<noteq> ''__proto__'' \<Longrightarrow> k \<notin> set objectPrototypeFunctions \<Longrightarrow> fromObjectPrototype proto k = Undefined"
  by (simp add: fromObjectPrototype_def)

lemma iterationScopes_eq:
  assumes "rowsAttr node ''data-max-rows'' M" and "rowsAttr node ''data-fixed-rows'' F"
  shows "iterationScopes node als alias items =
     (let eff = (case M of None \<Rightarrow> int (length items) | Some m \<Rightarrow> min (int (length items)) m);
          rows = max eff (case F of None \<Rightarrow> 0 | Some f \<Rightarrow> f)
      in map (instanceAliases als alias items (Some eff) (Some rows)) [0..<nat rows])"
  using assms
  by (auto simp: iterationScopes_def rowsAttr_def effectiveLengthOf_def totalRowsOf_def
      rowIndices_Some Let_def split: option.splits if_splits)

lemma instanceAliases_companions:
  "instanceAliases als alias items eff rows i ''$index'' = Some (Num (Fin (of_nat i)))"
  "instanceAliases als alias items eff (Some t) i ''$page'' =
     Some (Obj [(''index'', Num (Fin (of_nat i))), (''number'', Num (Fin (of_nat i + 1))),
                (''count'', Num (Fin (of_int t)))])"
  by (simp_all add: instanceAliases_def assignAlias_def)

lemma instanceAliases_alias:
  "alias \<noteq> ''$index'' \<Longrightarrow> alias \<noteq> ''$page'' \<Longrightarrow> alias \<noteq> ''__proto__'' \<Longrightarrow>
   instanceAliases als alias items eff rows i alias =
     Some (if indexBelow i eff then arrayAt items i else Obj [])"
  by (simp add: instanceAliases_def assignAlias_def)

lemma instanceAliases_other:
  "k \<noteq> alias \<Longrightarrow> k \<noteq> ''$index'' \<Longrightarrow> k \<noteq> ''$page'' \<Longrightarrow>
   instanceAliases als alias items eff rows i k = als k"
  by (simp add: instanceAliases_def assignAlias_def)

lemma instanceAliases_proto:
  "instanceAliases als ''__proto__'' items eff rows i ''__proto__'' = als ''__proto__''"
  by (simp add: instanceAliases_def assignAlias_def)

lemma getByPath_alias:
  "normalizePath p = k # ks \<Longrightarrow> als k = Some v \<Longrightarrow> getByPath dat als p = walkPath v ks"
  by (simp add: getByPath_def)

lemma renderIteratedElement_instances:
  assumes "parseIterationExpression expr = Inr (path, alias)"
    and "arrayItems (getByPath (ctxData ctx) (ctxAliases ctx) path) = Some items"
    and "rowsAttr node ''data-max-rows'' M" and "rowsAttr node ''data-fixed-rows'' F"
    and "eff = (case M of None \<Rightarrow> int (length items) | Some m \<Rightarrow> min (int (length items)) m)"
    and "rows = max eff (case F of None \<Rightarrow> 0 | Some f \<Rightarrow> f)"
  shows "renderIteratedElement h node expr ctx =
     (case sequenceE
             (map (\<lambda>sc. renderElementOnce h node (ctx\<lparr>ctxAliases := sc\<rparr>))
                (map (instanceAliases (ctxAliases ctx) alias items (Some eff) (Some rows))
                   [0..<nat rows])) of
        Inl e \<Rightarrow> Inl e
      | Inr outs \<Rightarrow> Inr (concat outs))"
  using assms(1,2) iterationScopes_eq [OF assms(3,4), of "ctxAliases ctx" "alias" items] assms(5,6)
  by (simp add: Let_def)

lemma sequenceE_map_Inr: "sequenceE (map Inr xs) = Inr xs"
  by (induction xs) simp_all

lemma sequenceE_Inr: "sequenceE rs = Inr xs \<Longrightarrow> rs = map Inr xs"
  by (induction rs arbitrary: xs) (auto split: sum.splits)

lemma sequenceE_Inl:
  "sequenceE rs = Inl e \<Longrightarrow> Inl e \<in> set rs"
  by (induction rs) (auto split: sum.splits)

lemma toBoolean_falsyValues: "\<not> toBoolean v \<longleftrightarrow> v \<in> falsyValues"
  by (cases v) (auto simp: falsyValues_def)

lemma map_of_filter_key:
  "map_of (filter (\<lambda>(k, v). k \<noteq> d) xs) k = (if k = d then None else map_of xs k)"
  by (induction xs) auto

lemma attr_withoutCondition:
  "attr (withoutCondition node) k = (if k = ''data-if'' then None else attr node k)"
  by (simp add: attr_def withoutCondition_def map_of_filter_key)

lemma buildRenderedAttributes_withoutCondition:
  "buildRenderedAttributes (withoutCondition node) = buildRenderedAttributes node"
proof -
  have "filter (\<lambda>(k, v). k \<notin> set CONTROL_ATTRIBUTES \<and> k \<noteq> ''style'')
          (filter (\<lambda>(k, v). k \<noteq> ''data-if'') xs)
      = filter (\<lambda>(k, v). k \<notin> set CONTROL_ATTRIBUTES \<and> k \<noteq> ''style'') xs" for xs :: "(string \<times> string) list"
    by (induction xs) (auto simp: CONTROL_ATTRIBUTES_def)
  then have f: "filter (\<lambda>(k, v). k \<notin> set CONTROL_ATTRIBUTES \<and> k \<noteq> ''style'')
          (attributes (withoutCondition node))
      = filter (\<lambda>(k, v). k \<notin> set CONTROL_ATTRIBUTES \<and> k \<noteq> ''style'') (attributes node)"
    by (simp add: withoutCondition_def)
  show ?thesis
    unfolding buildRenderedAttributes_def f by (simp add: attr_withoutCondition)
qed

lemma renderElementOnce_unconditional:
  "\<not> truthyAttr (attr node ''data-if'') \<Longrightarrow>
   renderElementOnce h node ctx =
     (if tagName node = ''meta'' then Inr []
      else if isVoidTag (tagName node)
      then Inr (''<'' @ tagName node @ buildRenderedAttributes node @ ''>'')
      else (case sequenceE (map (\<lambda>child. renderNode h child ctx) (children node)) of
              Inl e \<Rightarrow> Inl e
            | Inr body \<Rightarrow>
                Inr (''<'' @ tagName node @ buildRenderedAttributes node @ ''>'' @ concat body
                       @ ''</'' @ tagName node @ ''>'')))"
  by (cases node) (auto simp add: Let_def split: sum.splits)

lemma renderElementOnce_conditional:
  "attr node ''data-if'' = Some p \<Longrightarrow> p \<noteq> [] \<Longrightarrow>
   renderElementOnce h node ctx =
     (if \<not> toBoolean (getByPath (ctxData ctx) (ctxAliases ctx) p) then Inr []
      else if tagName node = ''meta'' then Inr []
      else if isVoidTag (tagName node)
      then Inr (''<'' @ tagName node @ buildRenderedAttributes node @ ''>'')
      else (case sequenceE (map (\<lambda>child. renderNode h child ctx) (children node)) of
              Inl e \<Rightarrow> Inl e
            | Inr body \<Rightarrow>
                Inr (''<'' @ tagName node @ buildRenderedAttributes node @ ''>'' @ concat body
                       @ ''</'' @ tagName node @ ''>'')))"
  by (cases node) (auto simp add: Let_def split: sum.splits)

text \<open>What one instance emits: nothing, if its condition is falsy or it is a meta element;
  else the element, from its opening tag on.\<close>

lemma renderElementOnce_emits:
  assumes "renderElementOnce h node ctx = Inr out"
  shows "if (truthyAttr (attr node ''data-if'')
             \<and> getByPath (ctxData ctx) (ctxAliases ctx) (the (attr node ''data-if'')) \<in> falsyValues)
            \<or> tagName node = ''meta''
         then out = []
         else startsWith out (''<'' @ tagName node @ buildRenderedAttributes node @ ''>'')"
proof (cases "truthyAttr (attr node ''data-if'')")
  case False
  from assms show ?thesis
    unfolding renderElementOnce_unconditional [OF False] using False
    by (auto simp: startsWith_def split: if_splits sum.splits)
next
  case True
  then obtain p where p: "attr node ''data-if'' = Some p" "p \<noteq> []"
    by (cases "attr node ''data-if''") auto
  from assms show ?thesis
    unfolding renderElementOnce_conditional [OF p] using p
    by (auto simp: startsWith_def toBoolean_falsyValues split: if_splits sum.splits)
qed

lemmas eval_defs = trim_def trimStart_def isSpace_def isIdentStart_def isIdentChar_def isDigit_def
  startsWith_def endsWith_def normalizePath_def matchIteration_def parseIterationExpression_def
  attr_def getByPath_def arrayAt_def parseInt_def natOfDigits_def rowsAttr_def

text \<open>
  C1, the claim as stated fails. Each instance of an iterated element is rendered by
  renderElementOnce under the data-if of the element, so an instance whose condition is
  falsy emits nothing: with one item, data-fixed-rows = 3 and data-if = item.name on the
  element, one element is emitted and not max(min(1, infinity), 3) = 3. And the alias of a
  padding row is an empty object, which inherits from Object.prototype: the lookup
  item.constructor on a padding row is the function Object and not absent.
\<close>

theorem conditional_rows_emit_fewer:
  "renderAst plainHost
     (ElementNode ''ul'' []
        [Element (ElementNode ''li''
           [(''data-repeat'', ''items as item''), (''data-fixed-rows'', ''3''),
            (''data-if'', ''item.name'')]
           [Text [Interpolation (InterpolationSegment ''item.name'' TString False [] [])]])])
     (Obj [(''items'', Arr [Obj [(''name'', Str ''A'')]])]) None
   = Inr ''<ul><li>A</li></ul>''
   \<and> getByPath (Obj [(''items'', Arr [])]) [''item'' \<mapsto> Obj []] ''item.constructor''
      = Builtin (BuiltinFunction ''Object.prototype.constructor'')"
  by code_simp

text \<open>
  C1, amended. For an iterated element over an array of N items, with data-max-rows = M
  (absent: no limit) and data-fixed-rows = F (absent: 0), renderIteratedElement renders
  the element max(min(N, M), F) times with renderElementOnce, once under each scope in
  order, and returns the concatenation of what the instances emit (or the first error
  that one of them raises). An instance emits nothing if the element has a data-if whose
  path is falsy in the scope of the instance, or is a meta element; otherwise it emits the
  element, beginning with its opening tag. Every scope keeps the aliases of the context
  other than the alias and the companions. If the alias is none of $index, $page and
  __proto__ (the companions are assigned after the alias, and assigning to __proto__
  binds nothing), it is bound to the source item in the instances below min(N, M) and to
  an empty object in the others; there a lookup through the alias never raises and
  resolves to what an empty object inherits from Object.prototype under the first name
  after the alias, which is undefined for every name that is not one of Object.prototype.
\<close>

theorem row_count_law:
  assumes "parseIterationExpression expr = Inr (path, alias)"
    and "getByPath (ctxData ctx) (ctxAliases ctx) path = Arr items"
    and "rowsAttr node ''data-max-rows'' M" and "rowsAttr node ''data-fixed-rows'' F"
    and "eff = (case M of None \<Rightarrow> int (length items) | Some m \<Rightarrow> min (int (length items)) m)"
    and "rows = max eff (case F of None \<Rightarrow> 0 | Some f \<Rightarrow> f)"
  shows "\<exists>scopes. length scopes = nat rows
      \<and> renderIteratedElement h node expr ctx =
          (case sequenceE (map (\<lambda>sc. renderElementOnce h node (ctx\<lparr>ctxAliases := sc\<rparr>)) scopes) of
             Inl e \<Rightarrow> Inl e
           | Inr outs \<Rightarrow> Inr (concat outs))
      \<and> (\<forall>outs. sequenceE (map (\<lambda>sc. renderElementOnce h node (ctx\<lparr>ctxAliases := sc\<rparr>)) scopes)
                    = Inr outs \<longrightarrow>
            length outs = nat rows
            \<and> (\<forall>i < nat rows.
                  if (truthyAttr (attr node ''data-if'')
                      \<and> getByPath (ctxData ctx) (scopes ! i) (the (attr node ''data-if'')) \<in> falsyValues)
                     \<or> tagName node = ''meta''
                  then outs ! i = []
                  else startsWith (outs ! i) (''<'' @ tagName node @ buildRenderedAttributes node @ ''>'')))
      \<and> (\<forall>i < nat rows. \<forall>k. k \<notin> {alias, ''$index'', ''$page''} \<longrightarrow> (scopes ! i) k = ctxAliases ctx k)
      \<and> (alias \<notin> {''$index'', ''$page'', ''__proto__''} \<longrightarrow>
            (\<forall>i < nat rows. int i < eff \<longrightarrow> (scopes ! i) alias = Some (items ! i))
          \<and> (\<forall>i < nat rows. eff \<le> int i \<longrightarrow>
                (scopes ! i) alias = Some (Obj [])
                \<and> (\<forall>p k ks. normalizePath p = alias # k # ks \<longrightarrow>
                      getByPath (ctxData ctx) (scopes ! i) p
                        = walkPath (fromObjectPrototype (Builtin ObjectPrototype) k) ks
                      \<and> (k \<noteq> ''__proto__'' \<and> k \<notin> set objectPrototypeFunctions \<longrightarrow>
                            getByPath (ctxData ctx) (scopes ! i) p = Undefined))))"
proof -
  define scopes where
    "scopes = map (instanceAliases (ctxAliases ctx) alias items (Some eff) (Some rows)) [0..<nat rows]"
  let ?run = "map (\<lambda>sc. renderElementOnce h node (ctx\<lparr>ctxAliases := sc\<rparr>)) scopes"
  have len: "length scopes = nat rows" by (simp add: scopes_def)
  have nth: "scopes ! i = instanceAliases (ctxAliases ctx) alias items (Some eff) (Some rows) i"
    if "i < nat rows" for i
    using that by (simp add: scopes_def)
  have a: "arrayItems (getByPath (ctxData ctx) (ctxAliases ctx) path) = Some items"
    by (simp add: assms(2))
  have ren: "renderIteratedElement h node expr ctx =
      (case sequenceE ?run of Inl e \<Rightarrow> Inl e | Inr outs \<Rightarrow> Inr (concat outs))"
    unfolding scopes_def
    by (rule renderIteratedElement_instances [OF assms(1) a assms(3,4,5,6)])
  have outs: "length outs = nat rows
      \<and> (\<forall>i < nat rows.
            if (truthyAttr (attr node ''data-if'')
                \<and> getByPath (ctxData ctx) (scopes ! i) (the (attr node ''data-if'')) \<in> falsyValues)
               \<or> tagName node = ''meta''
            then outs ! i = []
            else startsWith (outs ! i) (''<'' @ tagName node @ buildRenderedAttributes node @ ''>''))"
    if s: "sequenceE ?run = Inr outs" for outs
  proof -
    from sequenceE_Inr [OF s] have m: "?run = map Inr outs" .
    then have "length ?run = length (map Inr outs :: (error + string) list)" by simp
    then have l: "length outs = nat rows" using len by simp
    have r: "renderElementOnce h node (ctx\<lparr>ctxAliases := scopes ! i\<rparr>) = Inr (outs ! i)"
      if "i < nat rows" for i
    proof -
      from that len l have "?run ! i = (map Inr outs :: (error + string) list) ! i"
        using m by simp
      then show ?thesis using that len l by simp
    qed
    have em: "if (truthyAttr (attr node ''data-if'')
                \<and> getByPath (ctxData ctx) (scopes ! i) (the (attr node ''data-if'')) \<in> falsyValues)
               \<or> tagName node = ''meta''
            then outs ! i = []
            else startsWith (outs ! i) (''<'' @ tagName node @ buildRenderedAttributes node @ ''>'')"
      if "i < nat rows" for i
      using renderElementOnce_emits [OF r [OF that]] by simp
    from em l show ?thesis by blast
  qed
  have other: "(scopes ! i) k = ctxAliases ctx k"
    if "i < nat rows" "k \<notin> {alias, ''$index'', ''$page''}" for i k
    using that by (simp add: nth instanceAliases_other)
  have eff_le: "eff \<le> int (length items)"
    using assms(5) by (auto split: option.splits)
  have real: "(scopes ! i) alias = Some (items ! i)"
    if "alias \<notin> {''$index'', ''$page'', ''__proto__''}" "i < nat rows" "int i < eff" for i
    using that eff_le by (simp add: nth instanceAliases_alias arrayAt_def)
  have pad: "(scopes ! i) alias = Some (Obj [])"
    if "alias \<notin> {''$index'', ''$page'', ''__proto__''}" "i < nat rows" "eff \<le> int i" for i
    using that by (simp add: nth instanceAliases_alias)
  have padlook: "getByPath (ctxData ctx) (scopes ! i) p
        = walkPath (fromObjectPrototype (Builtin ObjectPrototype) k) ks
      \<and> (k \<noteq> ''__proto__'' \<and> k \<notin> set objectPrototypeFunctions \<longrightarrow>
            getByPath (ctxData ctx) (scopes ! i) p = Undefined)"
    if "alias \<notin> {''$index'', ''$page'', ''__proto__''}" "i < nat rows" "eff \<le> int i"
      "normalizePath p = alias # k # ks" for i p k ks
    using that(4) pad [OF that(1,2,3)]
    by (simp add: getByPath_def fromObjectPrototype_other walkPath_Undefined)
  have aliasPart: "alias \<notin> {''$index'', ''$page'', ''__proto__''} \<longrightarrow>
            (\<forall>i < nat rows. int i < eff \<longrightarrow> (scopes ! i) alias = Some (items ! i))
          \<and> (\<forall>i < nat rows. eff \<le> int i \<longrightarrow>
                (scopes ! i) alias = Some (Obj [])
                \<and> (\<forall>p k ks. normalizePath p = alias # k # ks \<longrightarrow>
                      getByPath (ctxData ctx) (scopes ! i) p
                        = walkPath (fromObjectPrototype (Builtin ObjectPrototype) k) ks
                      \<and> (k \<noteq> ''__proto__'' \<and> k \<notin> set objectPrototypeFunctions \<longrightarrow>
                            getByPath (ctxData ctx) (scopes ! i) p = Undefined)))"
  proof (intro impI conjI allI)
    fix i assume "alias \<notin> {''$index'', ''$page'', ''__proto__''}" "i < nat rows" "int i < eff"
    then show "(scopes ! i) alias = Some (items ! i)" by (rule real)
  next
    fix i assume "alias \<notin> {''$index'', ''$page'', ''__proto__''}" "i < nat rows" "eff \<le> int i"
    then show "(scopes ! i) alias = Some (Obj [])" by (rule pad)
  next
    fix i p k ks
    assume "alias \<notin> {''$index'', ''$page'', ''__proto__''}" "i < nat rows" "eff \<le> int i"
      "normalizePath p = alias # k # ks"
    from padlook [OF this]
    show "getByPath (ctxData ctx) (scopes ! i) p
        = walkPath (fromObjectPrototype (Builtin ObjectPrototype) k) ks" by blast
  next
    fix i p k ks
    assume "alias \<notin> {''$index'', ''$page'', ''__proto__''}" "i < nat rows" "eff \<le> int i"
      "normalizePath p = alias # k # ks"
      "k \<noteq> ''__proto__'' \<and> k \<notin> set objectPrototypeFunctions"
    from padlook [OF this(1,2,3,4)] this(5)
    show "getByPath (ctxData ctx) (scopes ! i) p = Undefined" by blast
  qed
  have outsPart: "\<forall>outs. sequenceE ?run = Inr outs \<longrightarrow>
            length outs = nat rows
            \<and> (\<forall>i < nat rows.
                  if (truthyAttr (attr node ''data-if'')
                      \<and> getByPath (ctxData ctx) (scopes ! i) (the (attr node ''data-if'')) \<in> falsyValues)
                     \<or> tagName node = ''meta''
                  then outs ! i = []
                  else startsWith (outs ! i) (''<'' @ tagName node @ buildRenderedAttributes node @ ''>''))"
    using outs by (intro allI impI)
  have otherPart: "\<forall>i < nat rows. \<forall>k. k \<notin> {alias, ''$index'', ''$page''} \<longrightarrow>
      (scopes ! i) k = ctxAliases ctx k"
    using other by (intro allI impI)
  show ?thesis
    by (rule exI [of _ scopes]) (intro conjI len ren outsPart otherPart aliasPart)
qed

theorem row_count_law_witness:
  "(let node = ElementNode ''tr'' [(''data-repeat'', ''items as item''), (''data-fixed-rows'', ''5'')]
                 [Text [Interpolation (InterpolationSegment ''item.name'' TString True [] [])]];
        items = [Obj [(''name'', Str ''A'')], Obj [(''name'', Str ''B'')]];
        ctx = \<lparr>ctxData = Obj [(''items'', Arr items)], ctxAliases = Map.empty, ctxTimezone = ''UTC''\<rparr>
    in \<exists>scopes. length scopes = 5
         \<and> renderIteratedElement plainHost node ''items as item'' ctx =
              (case sequenceE (map (\<lambda>sc. renderElementOnce plainHost node (ctx\<lparr>ctxAliases := sc\<rparr>)) scopes) of
                 Inl e \<Rightarrow> Inl e
               | Inr outs \<Rightarrow> Inr (concat outs))
         \<and> (scopes ! 1) ''item'' = Some (Obj [(''name'', Str ''B'')])
         \<and> (scopes ! 4) ''item'' = Some (Obj [])
         \<and> getByPath (ctxData ctx) (scopes ! 4) ''item.name'' = Undefined)"
proof -
  define node where "node = ElementNode ''tr''
     [(''data-repeat'', ''items as item''), (''data-fixed-rows'', ''5'')]
     [Text [Interpolation (InterpolationSegment ''item.name'' TString True [] [])]]"
  define items where "items = [Obj [(''name'', Str ''A'')], Obj [(''name'', Str ''B'')]]"
  define ctx where "ctx = \<lparr>ctxData = Obj [(''items'', Arr items)], ctxAliases = Map.empty, ctxTimezone = ''UTC''\<rparr>"
  have p: "parseIterationExpression ''items as item'' = Inr (''items'', ''item'')" by code_simp
  have g: "getByPath (ctxData ctx) (ctxAliases ctx) ''items'' = Arr items"
    by (simp add: ctx_def eval_defs)
  have m: "rowsAttr node ''data-max-rows'' None" by (simp add: node_def eval_defs)
  have f: "rowsAttr node ''data-fixed-rows'' (Some 5)" by (simp add: node_def eval_defs)
  have e: "(2::int) = (case None :: int option of None \<Rightarrow> int (length items) | Some m \<Rightarrow> min (int (length items)) m)"
    by (simp add: items_def)
  have t: "(5::int) = max 2 (case Some 5 of None \<Rightarrow> 0 | Some f \<Rightarrow> f)" by simp
  have np: "normalizePath ''item.name'' = ''item'' # ''name'' # []" by code_simp
  have nm: "''name'' \<noteq> ''__proto__'' \<and> ''name'' \<notin> set objectPrototypeFunctions" by code_simp
  have ok: "''item'' \<notin> {''$index'', ''$page'', ''__proto__''}" by simp
  have i4: "4 < nat 5" "(2::int) \<le> int 4" by simp_all
  have i1: "1 < nat 5" "int 1 < (2::int)" by simp_all
  show ?thesis
    unfolding Let_def node_def [symmetric] items_def [symmetric] ctx_def [symmetric]
    using row_count_law [OF p g m f e t, of plainHost]
  proof (elim exE conjE)
    fix scopes
    assume len: "length scopes = nat 5"
      and ren: "renderIteratedElement plainHost node ''items as item'' ctx =
          (case sequenceE (map (\<lambda>sc. renderElementOnce plainHost node (ctx\<lparr>ctxAliases := sc\<rparr>)) scopes) of
             Inl e \<Rightarrow> Inl e
           | Inr outs \<Rightarrow> Inr (concat outs))"
      and al: "''item'' \<notin> {''$index'', ''$page'', ''__proto__''} \<longrightarrow>
            (\<forall>i < nat 5. int i < 2 \<longrightarrow> (scopes ! i) ''item'' = Some (items ! i))
          \<and> (\<forall>i < nat 5. 2 \<le> int i \<longrightarrow>
                (scopes ! i) ''item'' = Some (Obj [])
                \<and> (\<forall>p k ks. normalizePath p = ''item'' # k # ks \<longrightarrow>
                      getByPath (ctxData ctx) (scopes ! i) p
                        = walkPath (fromObjectPrototype (Builtin ObjectPrototype) k) ks
                      \<and> (k \<noteq> ''__proto__'' \<and> k \<notin> set objectPrototypeFunctions \<longrightarrow>
                            getByPath (ctxData ctx) (scopes ! i) p = Undefined)))"
    note real = al [rule_format, OF ok, THEN conjunct1, rule_format]
    note pad = al [rule_format, OF ok, THEN conjunct2, rule_format]
    have r: "(scopes ! 1) ''item'' = Some (items ! 1)" by (rule real [OF i1])
    have q: "(scopes ! 4) ''item'' = Some (Obj [])" using pad [OF i4] by (rule conjunct1)
    have u: "getByPath (ctxData ctx) (scopes ! 4) ''item.name'' = Undefined"
      using pad [OF i4, THEN conjunct2, rule_format, OF np, THEN conjunct2, rule_format, OF nm] .
    have l5: "length scopes = 5" using len by simp
    have r': "(scopes ! 1) ''item'' = Some (Obj [(''name'', Str ''B'')])"
      using r by (simp add: items_def)
    show "\<exists>scopes. length scopes = 5
         \<and> renderIteratedElement plainHost node ''items as item'' ctx =
              (case sequenceE (map (\<lambda>sc. renderElementOnce plainHost node (ctx\<lparr>ctxAliases := sc\<rparr>)) scopes) of
                 Inl e \<Rightarrow> Inl e
               | Inr outs \<Rightarrow> Inr (concat outs))
         \<and> (scopes ! 1) ''item'' = Some (Obj [(''name'', Str ''B'')])
         \<and> (scopes ! 4) ''item'' = Some (Obj [])
         \<and> getByPath (ctxData ctx) (scopes ! 4) ''item.name'' = Undefined"
      by (rule exI [of _ scopes]) (intro conjI l5 ren r' q u)
  qed
qed

text \<open>
  C10. Implicit companions. An element whose data-page attribute holds an expression, or
  which has none and whose data-repeat attribute holds one, is rendered over an array
  as the instances of renderElementOnce under the scopes of the loop, one for each row,
  padding rows included. In the scope of instance i the alias $index is the number i and
  the alias $page is the object with index = i, number = i + 1 and count = the number of
  instances: the lookups $index, $page.index, $page.number and $page.count resolve to
  these numbers. The two attributes reach the same loop.
\<close>

theorem iteration_companions:
  assumes "(attr node ''data-page'' = Some expr \<and> expr \<noteq> [])
           \<or> (\<not> truthyAttr (attr node ''data-page'') \<and> attr node ''data-repeat'' = Some expr \<and> expr \<noteq> [])"
    and "parseIterationExpression expr = Inr (path, alias)"
    and "getByPath (ctxData ctx) (ctxAliases ctx) path = Arr items"
    and "rowsAttr node ''data-max-rows'' M" and "rowsAttr node ''data-fixed-rows'' F"
    and "eff = (case M of None \<Rightarrow> int (length items) | Some m \<Rightarrow> min (int (length items)) m)"
    and "rows = max eff (case F of None \<Rightarrow> 0 | Some f \<Rightarrow> f)"
  shows "\<exists>scopes. length scopes = nat rows
      \<and> renderElement h node ctx =
          (case sequenceE (map (\<lambda>sc. renderElementOnce h node (ctx\<lparr>ctxAliases := sc\<rparr>)) scopes) of
             Inl e \<Rightarrow> Inl e
           | Inr outs \<Rightarrow> Inr (concat outs))
      \<and> (\<forall>i < nat rows.
            (scopes ! i) ''$index'' = Some (Num (Fin (of_nat i)))
            \<and> (scopes ! i) ''$page'' =
                 Some (Obj [(''index'', Num (Fin (of_nat i))),
                            (''number'', Num (Fin (of_nat i + 1))),
                            (''count'', Num (Fin (of_nat (nat rows))))])
            \<and> getByPath (ctxData ctx) (scopes ! i) ''$index'' = Num (Fin (of_nat i))
            \<and> getByPath (ctxData ctx) (scopes ! i) ''$page.index'' = Num (Fin (of_nat i))
            \<and> getByPath (ctxData ctx) (scopes ! i) ''$page.number'' = Num (Fin (of_nat i + 1))
            \<and> getByPath (ctxData ctx) (scopes ! i) ''$page.count'' = Num (Fin (of_nat (nat rows))))"
proof -
  define scopes where
    "scopes = map (instanceAliases (ctxAliases ctx) alias items (Some eff) (Some rows)) [0..<nat rows]"
  have len: "length scopes = nat rows" by (simp add: scopes_def)
  have a: "arrayItems (getByPath (ctxData ctx) (ctxAliases ctx) path) = Some items"
    by (simp add: assms(3))
  have el: "renderElement h node ctx = renderIteratedElement h node expr ctx"
    using assms(1) by auto
  have ren: "renderElement h node ctx =
      (case sequenceE (map (\<lambda>sc. renderElementOnce h node (ctx\<lparr>ctxAliases := sc\<rparr>)) scopes) of
         Inl e \<Rightarrow> Inl e
       | Inr outs \<Rightarrow> Inr (concat outs))"
    unfolding el scopes_def
    by (rule renderIteratedElement_instances [OF assms(2) a assms(4,5,6,7)])
  have n1: "normalizePath ''$index'' = [''$index'']"
    and n2: "normalizePath ''$page.index'' = [''$page'', ''index'']"
    and n3: "normalizePath ''$page.number'' = [''$page'', ''number'']"
    and n4: "normalizePath ''$page.count'' = [''$page'', ''count'']"
    by code_simp+
  have comp: "(scopes ! i) ''$index'' = Some (Num (Fin (of_nat i)))
            \<and> (scopes ! i) ''$page'' =
                 Some (Obj [(''index'', Num (Fin (of_nat i))),
                            (''number'', Num (Fin (of_nat i + 1))),
                            (''count'', Num (Fin (of_nat (nat rows))))])
            \<and> getByPath (ctxData ctx) (scopes ! i) ''$index'' = Num (Fin (of_nat i))
            \<and> getByPath (ctxData ctx) (scopes ! i) ''$page.index'' = Num (Fin (of_nat i))
            \<and> getByPath (ctxData ctx) (scopes ! i) ''$page.number'' = Num (Fin (of_nat i + 1))
            \<and> getByPath (ctxData ctx) (scopes ! i) ''$page.count'' = Num (Fin (of_nat (nat rows)))"
    if i: "i < nat rows" for i
  proof -
    have nth: "scopes ! i = instanceAliases (ctxAliases ctx) alias items (Some eff) (Some rows) i"
      using i by (simp add: scopes_def)
    from i have "0 < rows" by simp
    then have cnt: "(of_int rows :: rat) = of_nat (nat rows)" by simp
    have x: "(scopes ! i) ''$index'' = Some (Num (Fin (of_nat i)))"
      by (simp add: nth instanceAliases_companions)
    have pg: "(scopes ! i) ''$page'' =
                 Some (Obj [(''index'', Num (Fin (of_nat i))),
                            (''number'', Num (Fin (of_nat i + 1))),
                            (''count'', Num (Fin (of_nat (nat rows))))])"
      by (simp add: nth instanceAliases_companions cnt del: of_nat_nat)
    show ?thesis
      using x pg by (simp add: getByPath_def n1 n2 n3 n4 del: of_nat_nat)
  qed
  show ?thesis
    by (rule exI [of _ scopes]) (use len ren comp in blast)
qed

theorem iteration_companions_witness:
  "(let node = ElementNode ''section'' [(''data-page'', ''contracts as contract'')]
                 [Text [Interpolation (InterpolationSegment ''$page.number'' TInteger False [] [])]];
        ctx = \<lparr>ctxData = Obj [(''contracts'', Arr [Obj [], Obj [], Obj []])],
               ctxAliases = Map.empty, ctxTimezone = ''UTC''\<rparr>
    in \<exists>scopes. length scopes = 3
         \<and> renderElement plainHost node ctx =
              (case sequenceE (map (\<lambda>sc. renderElementOnce plainHost node (ctx\<lparr>ctxAliases := sc\<rparr>)) scopes) of
                 Inl e \<Rightarrow> Inl e
               | Inr outs \<Rightarrow> Inr (concat outs))
         \<and> (scopes ! 2) ''$index'' = Some (Num (Fin 2))
         \<and> getByPath (ctxData ctx) (scopes ! 2) ''$page.number'' = Num (Fin 3)
         \<and> getByPath (ctxData ctx) (scopes ! 2) ''$page.count'' = Num (Fin 3))"
proof -
  define node where "node = ElementNode ''section'' [(''data-page'', ''contracts as contract'')]
                 [Text [Interpolation (InterpolationSegment ''$page.number'' TInteger False [] [])]]"
  define ctx where "ctx = \<lparr>ctxData = Obj [(''contracts'', Arr [Obj [], Obj [], Obj []])],
               ctxAliases = Map.empty, ctxTimezone = ''UTC''\<rparr>"
  have a: "(attr node ''data-page'' = Some ''contracts as contract'' \<and> ''contracts as contract'' \<noteq> [])
           \<or> (\<not> truthyAttr (attr node ''data-page'')
               \<and> attr node ''data-repeat'' = Some ''contracts as contract'' \<and> ''contracts as contract'' \<noteq> [])"
    by (simp add: node_def attr_def)
  have p: "parseIterationExpression ''contracts as contract'' = Inr (''contracts'', ''contract'')"
    by code_simp
  have g: "getByPath (ctxData ctx) (ctxAliases ctx) ''contracts'' = Arr [Obj [], Obj [], Obj []]"
    by (simp add: ctx_def eval_defs)
  have m: "rowsAttr node ''data-max-rows'' None" by (simp add: node_def eval_defs)
  have f: "rowsAttr node ''data-fixed-rows'' None" by (simp add: node_def eval_defs)
  have e: "(3::int) = (case None :: int option of None \<Rightarrow> int (length [Obj [], Obj [], Obj []])
                        | Some m \<Rightarrow> min (int (length [Obj [], Obj [], Obj []])) m)"
    by simp
  have t: "(3::int) = max 3 (case None :: int option of None \<Rightarrow> 0 | Some f \<Rightarrow> f)" by simp
  have i2: "2 < nat 3" by simp
  show ?thesis
    unfolding Let_def node_def [symmetric] ctx_def [symmetric]
    using iteration_companions [OF a p g m f e t, of plainHost]
  proof (elim exE conjE)
    fix scopes
    assume len: "length scopes = nat 3"
      and ren: "renderElement plainHost node ctx =
          (case sequenceE (map (\<lambda>sc. renderElementOnce plainHost node (ctx\<lparr>ctxAliases := sc\<rparr>)) scopes) of
             Inl e \<Rightarrow> Inl e
           | Inr outs \<Rightarrow> Inr (concat outs))"
      and comp: "\<forall>i < nat 3.
            (scopes ! i) ''$index'' = Some (Num (Fin (of_nat i)))
            \<and> (scopes ! i) ''$page'' =
                 Some (Obj [(''index'', Num (Fin (of_nat i))),
                            (''number'', Num (Fin (of_nat i + 1))),
                            (''count'', Num (Fin (of_nat (nat 3))))])
            \<and> getByPath (ctxData ctx) (scopes ! i) ''$index'' = Num (Fin (of_nat i))
            \<and> getByPath (ctxData ctx) (scopes ! i) ''$page.index'' = Num (Fin (of_nat i))
            \<and> getByPath (ctxData ctx) (scopes ! i) ''$page.number'' = Num (Fin (of_nat i + 1))
            \<and> getByPath (ctxData ctx) (scopes ! i) ''$page.count'' = Num (Fin (of_nat (nat 3)))"
    note c = comp [rule_format, OF i2]
    have l3: "length scopes = 3" using len by simp
    have c1: "(scopes ! 2) ''$index'' = Some (Num (Fin 2))" using c by simp
    have c2: "getByPath (ctxData ctx) (scopes ! 2) ''$page.number'' = Num (Fin 3)" using c by simp
    have c3: "getByPath (ctxData ctx) (scopes ! 2) ''$page.count'' = Num (Fin 3)" using c by simp
    show "\<exists>scopes. length scopes = 3
         \<and> renderElement plainHost node ctx =
              (case sequenceE (map (\<lambda>sc. renderElementOnce plainHost node (ctx\<lparr>ctxAliases := sc\<rparr>)) scopes) of
                 Inl e \<Rightarrow> Inl e
               | Inr outs \<Rightarrow> Inr (concat outs))
         \<and> (scopes ! 2) ''$index'' = Some (Num (Fin 2))
         \<and> getByPath (ctxData ctx) (scopes ! 2) ''$page.number'' = Num (Fin 3)
         \<and> getByPath (ctxData ctx) (scopes ! 2) ''$page.count'' = Num (Fin 3)"
      by (rule exI [of _ scopes]) (intro conjI l3 ren c1 c2 c3)
  qed
qed

text \<open>
  C7. Conditional rendering. For an element whose data-if attribute holds a path (a
  non-empty string), renderElementOnce returns the empty text, without visiting the
  subtree, exactly when the path resolves in the current scope to one of false, 0, -0,
  NaN, the empty string, null, undefined; for any other value it renders the element as
  it renders the same element without the attribute. (A meta element renders as the
  empty text in either case.)
\<close>

theorem conditional_skips_exactly_falsy:
  assumes "attr node ''data-if'' = Some p" and "p \<noteq> []"
  shows "renderElementOnce h node ctx =
           (if getByPath (ctxData ctx) (ctxAliases ctx) p \<in> falsyValues then Inr []
            else renderElementOnce h (withoutCondition node) ctx)
       \<and> (tagName node \<noteq> ''meta'' \<longrightarrow>
            (renderElementOnce h node ctx = Inr []
               \<longleftrightarrow> getByPath (ctxData ctx) (ctxAliases ctx) p \<in> falsyValues))"
proof -
  let ?v = "getByPath (ctxData ctx) (ctxAliases ctx) p"
  have nc: "\<not> truthyAttr (attr (withoutCondition node) ''data-if'')"
    by (simp add: attr_withoutCondition)
  have sel: "tagName (withoutCondition node) = tagName node"
    "children (withoutCondition node) = children node"
    by (simp_all add: withoutCondition_def)
  have first: "renderElementOnce h node ctx =
      (if ?v \<in> falsyValues then Inr [] else renderElementOnce h (withoutCondition node) ctx)"
    unfolding renderElementOnce_conditional [OF assms] renderElementOnce_unconditional [OF nc]
    by (auto simp add: toBoolean_falsyValues [symmetric] sel buildRenderedAttributes_withoutCondition
        split: sum.splits)
  have second: "renderElementOnce h node ctx = Inr [] \<longleftrightarrow> ?v \<in> falsyValues"
    if "tagName node \<noteq> ''meta''"
    unfolding renderElementOnce_conditional [OF assms]
    using that by (auto simp: toBoolean_falsyValues [symmetric] split: sum.splits)
  show ?thesis using first second by blast
qed

theorem conditional_skips_exactly_falsy_witness:
  "(let node = ElementNode ''li'' [(''data-if'', ''item.enabled'')] [Text [Literal ''A'']];
        ctx = \<lparr>ctxData = Obj [],
               ctxAliases = [''item'' \<mapsto> Obj [(''enabled'', Num NegZero)]],
               ctxTimezone = ''UTC''\<rparr>
    in getByPath (ctxData ctx) (ctxAliases ctx) ''item.enabled'' \<in> falsyValues
       \<and> renderElementOnce plainHost node ctx = Inr [])"
proof -
  define node where "node = ElementNode ''li'' [(''data-if'', ''item.enabled'')] [Text [Literal ''A'']]"
  define ctx where "ctx = \<lparr>ctxData = Obj [],
               ctxAliases = [''item'' \<mapsto> Obj [(''enabled'', Num NegZero)]],
               ctxTimezone = ''UTC''\<rparr>"
  have a: "attr node ''data-if'' = Some ''item.enabled''" by (simp add: node_def attr_def)
  have n: "''item.enabled'' \<noteq> []" by simp
  have t: "tagName node \<noteq> ''meta''" by (simp add: node_def)
  have v: "getByPath (ctxData ctx) (ctxAliases ctx) ''item.enabled'' \<in> falsyValues"
    by (simp add: ctx_def eval_defs falsyValues_def)
  have "renderElementOnce plainHost node ctx = Inr []"
    using conditional_skips_exactly_falsy [OF a n, of plainHost ctx] t v by blast
  with v show ?thesis by (simp add: Let_def node_def ctx_def)
qed

text \<open>
  C5. Page breaks. The claim asks for a page-break-after style on every instance of a
  data-page element but the last. The renderer has no such step: two pages render as two
  elements without any style.
\<close>

theorem page_iteration_adds_no_break:
  "renderAst plainHost
     (ElementNode ''section'' [(''data-page'', ''contracts as contract'')] [Text [Literal ''x'']])
     (Obj [(''contracts'', Arr [Obj [], Obj []])]) None
   = Inr ''<section>x</section><section>x</section>''"
  by code_simp

text \<open>
  C6. Default alias. The claim asks that an iteration attribute without the "as" clause
  parses, with the alias item or page. parseIterationExpression raises on it.
\<close>

theorem bare_iteration_path_raises:
  "parseIterationExpression ''items'' = Inl (Error ''Invalid iteration expression: items'')
   \<and> renderAst plainHost (ElementNode ''ul'' [] [Element (ElementNode ''li'' [(''data-repeat'', ''items'')] [])])
        (Obj [(''items'', Arr [Obj []])]) None
      = Inl (Error ''Invalid iteration expression: items'')"
  by code_simp

section \<open>Filters on absent data\<close>











section \<open>Property lists\<close>

lemma map_of_updateExisting:
  "map_of ps k \<noteq> None \<Longrightarrow> map_of (updateExisting k v ps) = (map_of ps)(k \<mapsto> v)"
  by (induction ps) (auto simp: fun_eq_iff)

lemma keys_updateExisting: "map fst (updateExisting k v ps) = map fst ps"
  by (induction ps) auto

lemma map_of_insertIndexed:
  "map_of ps k = None \<Longrightarrow> map_of (insertIndexed k v ps) = (map_of ps)(k \<mapsto> v)"
proof (induction ps)
  case Nil
  show ?case by simp
next
  case (Cons p ps)
  obtain k' v' where p: "p = (k', v')" by (cases p)
  from Cons.prems p have ne: "k' \<noteq> k" and n: "map_of ps k = None"
    by (auto split: if_splits)
  show ?case using Cons.IH [OF n] ne p by (auto simp: fun_eq_iff)
qed

lemma set_keys_insertIndexed: "set (map fst (insertIndexed k v ps)) = insert k (set (map fst ps))"
proof (induction ps)
  case Nil
  show ?case by simp
next
  case (Cons p ps)
  have "set (map fst (insertIndexed k v (p # ps))) =
      (if isIndexKey (fst p) \<and> natOfDigits (fst p) < natOfDigits k
       then insert (fst p) (set (map fst (insertIndexed k v ps)))
       else insert k (insert (fst p) (set (map fst ps))))"
    by (cases p) simp
  then show ?case unfolding Cons.IH by auto
qed

lemma distinct_insertIndexed:
  "distinct (map fst ps) \<Longrightarrow> k \<notin> set (map fst ps) \<Longrightarrow> distinct (map fst (insertIndexed k v ps))"
proof (induction ps)
  case Nil
  show ?case by simp
next
  case (Cons p ps)
  obtain k' v' where p: "p = (k', v')" by (cases p)
  show ?case
  proof (cases "isIndexKey k' \<and> natOfDigits k' < natOfDigits k")
    case True
    have "k' \<notin> set (map fst (insertIndexed k v ps))"
      using Cons.prems p unfolding set_keys_insertIndexed by auto
    then show ?thesis using Cons p True by simp
  next
    case False
    then show ?thesis using Cons p by auto
  qed
qed

lemma map_of_None_keys: "map_of ps k = None \<longleftrightarrow> k \<notin> set (map fst ps)"
  by (simp add: map_of_eq_None_iff)

lemma map_of_setProp [simp]: "map_of (setProp k v ps) = (map_of ps)(k \<mapsto> v)"
  unfolding setProp_def
  by (auto simp: map_of_updateExisting map_of_insertIndexed fun_eq_iff map_add_def
      split: option.splits)

lemma distinct_setProp [simp]:
  "distinct (map fst ps) \<Longrightarrow> distinct (map fst (setProp k v ps))"
  unfolding setProp_def
  by (auto simp: keys_updateExisting distinct_insertIndexed map_of_None_keys)

lemma set_keys_setProp [simp]: "set (map fst (setProp k v ps)) = insert k (set (map fst ps))"
proof (cases "map_of ps k")
  case None
  then show ?thesis
    unfolding setProp_def using set_keys_insertIndexed [of k v ps] by auto
next
  case (Some a)
  then have "k \<in> set (map fst ps)" by (metis map_of_None_keys option.distinct(1))
  then show ?thesis
    unfolding setProp_def using Some by (auto simp: keys_updateExisting simp del: set_map)
qed

lemma distinct_fromEntries_aux:
  "distinct (map fst acc) \<Longrightarrow> distinct (map fst (foldl (\<lambda>obj (k, v). setProp k v obj) acc es))"
  by (induction es arbitrary: acc) (auto simp: case_prod_beta)

lemma distinct_fromEntries [simp]: "distinct (map fst (fromEntries es))"
  unfolding fromEntries_def by (rule distinct_fromEntries_aux) simp

lemma map_of_foldl_setProp:
  "map_of (foldl (\<lambda>obj (k, v). setProp k v obj) acc es) = map_of acc ++ map_of (rev es)"
proof (induction es rule: rev_induct)
  case Nil
  show ?case by simp
next
  case (snoc e es)
  obtain k v where e: "e = (k, v)" by (cases e)
  show ?case using snoc by (auto simp: e fun_eq_iff map_add_def)
qed

lemma map_of_fromEntries: "map_of (fromEntries es) = map_of (rev es)"
  unfolding fromEntries_def by (simp add: map_of_foldl_setProp)

lemma map_of_rev_distinct: "distinct (map fst es) \<Longrightarrow> map_of (rev es) = map_of es"
  by (rule map_of_inject_set [THEN iffD2]) (auto simp: rev_map [symmetric])

lemma map_of_spread:
  "map_of (spread (Obj a) b) = map_of (rev a) ++ map_of (rev b)"
  unfolding spread_def by (simp add: map_of_fromEntries)

section \<open>The schema invariant\<close>

lemma requiredOf_Obj:
  "requiredOf (Obj kvs) = (case map_of kvs ''required'' of Some (Arr xs) \<Rightarrow> xs | _ \<Rightarrow> [])"
  by (auto simp: requiredOf_def split: option.splits jsval.splits)

lemma wfS_is_object: "wfS m v \<Longrightarrow> \<exists>kvs. v = Obj kvs"
  by (cases v) auto

lemma wfS_props:
  "wfS False (Obj ps) \<longleftrightarrow>
     distinct (map fst ps) \<and> (\<forall>k n. map_of ps k = Some n \<longrightarrow> wfS True n)"
  by (auto simp: map_of_eq_Some_iff)

lemma wfS_node:
  "wfS True (Obj kvs) \<longleftrightarrow>
     distinct (map fst kvs)
     \<and> (\<forall>r. map_of kvs ''required'' = Some r \<longrightarrow> isStringList r)
     \<and> (\<forall>v. map_of kvs ''properties'' = Some v \<longrightarrow>
           (\<exists>ps. v = Obj ps \<and> distinct (map fst ps)
              \<and> (\<forall>k n. map_of ps k = Some n \<longrightarrow>
                    wfS True n \<and> childOK (requiredOf (Obj kvs)) k n)))
     \<and> (\<forall>v. map_of kvs ''items'' = Some v \<longrightarrow> wfS True v)"
  (is "?L \<longleftrightarrow> ?R")
proof
  assume l: ?L
  then have d: "distinct (map fst kvs)" and lo: "localOK kvs"
    and rec: "\<And>k v. (k, v) \<in> set kvs \<Longrightarrow>
        (k = ''properties'' \<longrightarrow> wfS False v) \<and> (k = ''items'' \<longrightarrow> wfS True v)"
    by auto
  have r: "isStringList r" if "map_of kvs ''required'' = Some r" for r
    using lo that by (simp add: localOK_def)
  have p: "\<exists>ps. v = Obj ps \<and> distinct (map fst ps)
              \<and> (\<forall>k n. map_of ps k = Some n \<longrightarrow>
                    wfS True n \<and> childOK (requiredOf (Obj kvs)) k n)"
    if v: "map_of kvs ''properties'' = Some v" for v
  proof -
    have w: "wfS False v" using rec [of "''properties''" v] v d by simp
    then obtain ps where ps: "v = Obj ps" using wfS_is_object by blast
    have dp: "distinct (map fst ps)" and wn: "\<And>k n. map_of ps k = Some n \<Longrightarrow> wfS True n"
      using w unfolding ps wfS_props by auto
    have "childOK (requiredOf (Obj kvs)) k n" if "map_of ps k = Some n" for k n
      using lo v ps that dp by (auto simp: localOK_def dest: map_of_SomeD)
    with dp wn ps show ?thesis by blast
  qed
  have i: "wfS True v" if "map_of kvs ''items'' = Some v" for v
    using rec [of "''items''" v] that d by simp
  show ?R using d r p i by blast
next
  assume r: ?R
  then have d: "distinct (map fst kvs)" by blast
  have lo: "localOK kvs"
    using r by (auto simp: localOK_def split: option.splits jsval.splits)
  have rec: "(k = ''properties'' \<longrightarrow> wfS False v) \<and> (k = ''items'' \<longrightarrow> wfS True v)"
    if "(k, v) \<in> set kvs" for k v
  proof -
    have m: "map_of kvs k = Some v" using that d by simp
    show ?thesis
    proof (intro conjI impI)
      assume "k = ''properties''"
      with m r obtain ps where ps: "v = Obj ps" "distinct (map fst ps)"
        "\<forall>k n. map_of ps k = Some n \<longrightarrow> wfS True n" by blast
      have "wfS False (Obj ps)" unfolding wfS_props using ps(2,3) by blast
      then show "wfS False v" using ps(1) by simp
    next
      assume "k = ''items''"
      with m r show "wfS True v" by blast
    qed
  qed
  show ?L using d lo rec by auto
qed

lemma wfS_emptyObjectSchema [simp]: "wfS True emptyObjectSchema"
  unfolding emptyObjectSchema_def wfS_node by simp

lemma wfS_empty_object [simp]: "wfS True (Obj [])"
  unfolding wfS_node by simp

lemma wfS_emptyArraySchema [simp]: "wfS True (Obj emptyArraySchema)"
  unfolding emptyArraySchema_def wfS_node by simp

lemma leafOK_emptyArraySchema [simp]: "leafOK emptyArraySchema"
  by (simp add: leafOK_def emptyArraySchema_def)

section \<open>Building the schema keeps the invariant\<close>

lemma requiredOf_pushRequired:
  "requiredOf (Obj (pushRequired kvs k)) =
     (if Str k \<in> set (requiredOf (Obj kvs)) then requiredOf (Obj kvs)
      else requiredOf (Obj kvs) @ [Str k])"
  by (auto simp: pushRequired_def requiredOf_Obj Let_def split: option.splits jsval.splits)

lemma map_of_pushRequired:
  "map_of (pushRequired kvs k) =
     (map_of kvs)(''required'' \<mapsto> Arr (requiredOf (Obj (pushRequired kvs k))))"
  by (auto simp: pushRequired_def requiredOf_Obj Let_def fun_eq_iff split: option.splits jsval.splits)

lemma map_of_pushRequired_other [simp]:
  "q \<noteq> ''required'' \<Longrightarrow> map_of (pushRequired kvs k) q = map_of kvs q"
  by (subst map_of_pushRequired) simp

lemma distinct_pushRequired [simp]:
  "distinct (map fst kvs) \<Longrightarrow> distinct (map fst (pushRequired kvs k))"
  by (auto simp: pushRequired_def Let_def split: option.splits jsval.splits)

lemma set_requiredOf_pushRequired [simp]:
  "set (requiredOf (Obj (pushRequired kvs k))) = insert (Str k) (set (requiredOf (Obj kvs)))"
  by (auto simp: requiredOf_pushRequired)

lemma isStringList_requiredOf:
  "\<forall>r. map_of kvs ''required'' = Some r \<longrightarrow> isStringList r \<Longrightarrow>
   list_all (\<lambda>x. case x of Str s \<Rightarrow> True | _ \<Rightarrow> False) (requiredOf (Obj kvs))"
  by (auto simp: requiredOf_Obj split: option.splits jsval.splits)

lemma childOK_mono: "childOK req k n \<Longrightarrow> set req \<subseteq> set req' \<Longrightarrow> childOK req' k n"
  by (auto simp: childOK_def)

lemma childOK_member: "Str k \<in> set req \<Longrightarrow> childOK req k n"
  by (simp add: childOK_def)

lemma wfS_pushRequired: "wfS True (Obj kvs) \<Longrightarrow> wfS True (Obj (pushRequired kvs k))"
proof -
  assume w: "wfS True (Obj kvs)"
  have sl: "isStringList (Arr (requiredOf (Obj (pushRequired kvs k))))"
    using isStringList_requiredOf [of kvs] w unfolding wfS_node
    by (auto simp: requiredOf_pushRequired)
  show ?thesis
    unfolding wfS_node
  proof (intro conjI allI impI)
    show "distinct (map fst (pushRequired kvs k))" using w unfolding wfS_node by simp
  next
    fix r assume "map_of (pushRequired kvs k) ''required'' = Some r"
    then have "r = Arr (requiredOf (Obj (pushRequired kvs k)))"
      by (subst (asm) map_of_pushRequired) simp
    then show "isStringList r" using sl by simp
  next
    fix v assume "map_of (pushRequired kvs k) ''properties'' = Some v"
    then have "map_of kvs ''properties'' = Some v" by simp
    then obtain ps where ps: "v = Obj ps" "distinct (map fst ps)"
      "\<forall>k n. map_of ps k = Some n \<longrightarrow> wfS True n \<and> childOK (requiredOf (Obj kvs)) k n"
      using w unfolding wfS_node by blast
    have "\<forall>k' n. map_of ps k' = Some n \<longrightarrow>
        wfS True n \<and> childOK (requiredOf (Obj (pushRequired kvs k))) k' n"
      using ps(3) childOK_mono [where req = "requiredOf (Obj kvs)"
          and req' = "requiredOf (Obj (pushRequired kvs k))"]
      by (simp add: subset_insertI)
    with ps(1,2) show "\<exists>ps. v = Obj ps \<and> distinct (map fst ps)
        \<and> (\<forall>k' n. map_of ps k' = Some n \<longrightarrow>
              wfS True n \<and> childOK (requiredOf (Obj (pushRequired kvs k))) k' n)"
      by blast
  next
    fix v assume "map_of (pushRequired kvs k) ''items'' = Some v"
    then have "map_of kvs ''items'' = Some v" by simp
    then show "wfS True v" using w unfolding wfS_node by blast
  qed
qed

text \<open>Putting a child under a key of the properties of a node.\<close>

lemma wfS_set_child:
  assumes w: "wfS True (Obj node)"
    and p: "map_of node ''properties'' = Some (Obj ps)"
    and c: "wfS True child"
    and ok: "childOK (requiredOf (Obj node)) k child"
  shows "wfS True (Obj (setProp ''properties'' (Obj (setProp k child ps)) node))"
proof -
  from w p have dps: "distinct (map fst ps)"
    and old: "\<And>k n. map_of ps k = Some n \<Longrightarrow> wfS True n \<and> childOK (requiredOf (Obj node)) k n"
    unfolding wfS_node by auto
  let ?node = "setProp ''properties'' (Obj (setProp k child ps)) node"
  have req: "requiredOf (Obj ?node) = requiredOf (Obj node)"
    by (simp add: requiredOf_Obj)
  show ?thesis
    unfolding wfS_node req
  proof (intro conjI allI impI)
    show "distinct (map fst ?node)" using w unfolding wfS_node by simp
  next
    fix r assume "map_of ?node ''required'' = Some r"
    then show "isStringList r" using w unfolding wfS_node by simp
  next
    fix v assume "map_of ?node ''properties'' = Some v"
    then have v: "v = Obj (setProp k child ps)" by simp
    have "\<forall>k' n. map_of (setProp k child ps) k' = Some n \<longrightarrow>
        wfS True n \<and> childOK (requiredOf (Obj node)) k' n"
      using old c ok by (auto split: if_splits)
    then show "\<exists>ps. v = Obj ps \<and> distinct (map fst ps)
        \<and> (\<forall>k n. map_of ps k = Some n \<longrightarrow> wfS True n \<and> childOK (requiredOf (Obj node)) k n)"
      using v dps by (intro exI [of _ "setProp k child ps"]) simp
  next
    fix v assume "map_of ?node ''items'' = Some v"
    then show "wfS True v" using w unfolding wfS_node by simp
  qed
qed

lemma wfS_set_required_child:
  assumes w: "wfS True (Obj node)"
    and p: "map_of node ''properties'' = Some (Obj ps)"
    and c: "wfS True child"
  shows "wfS True (Obj (pushRequired (setProp ''properties'' (Obj (setProp k child ps)) node) k))"
proof -
  have w1: "wfS True (Obj (pushRequired node k))" by (rule wfS_pushRequired [OF w])
  have p1: "map_of (pushRequired node k) ''properties'' = Some (Obj ps)" using p by simp
  have ok: "childOK (requiredOf (Obj (pushRequired node k))) k child"
    by (rule childOK_member) simp
  have w2: "wfS True (Obj (setProp ''properties'' (Obj (setProp k child ps)) (pushRequired node k)))"
    by (rule wfS_set_child [OF w1 p1 c ok])
  let ?a = "pushRequired (setProp ''properties'' (Obj (setProp k child ps)) node) k"
  let ?b = "setProp ''properties'' (Obj (setProp k child ps)) (pushRequired node k)"
  have rq: "requiredOf (Obj (setProp ''properties'' (Obj (setProp k child ps)) node)) = requiredOf (Obj node)"
    by (simp add: requiredOf_Obj)
  have m: "map_of ?a = map_of ?b"
    by (subst map_of_pushRequired)
       (auto simp: fun_eq_iff requiredOf_pushRequired rq map_of_pushRequired [of node k])
  have d: "distinct (map fst ?a)" using w unfolding wfS_node by simp
  have rq2: "requiredOf (Obj ?a) = requiredOf (Obj ?b)" by (simp add: requiredOf_Obj m)
  show ?thesis
    using w2 unfolding wfS_node [of ?a] wfS_node [of ?b] m rq2 using d by blast
qed

lemma ensureObjectProperties_wf:
  assumes "wfS True cur"
  shows "\<exists>node ps. ensureObjectProperties cur = Inr (node, ps) \<and> wfS True (Obj node)
           \<and> map_of node ''properties'' = Some (Obj ps)"
proof -
  from assms obtain kvs where cur: "cur = Obj kvs" using wfS_is_object by blast
  show ?thesis
  proof (cases "map_of kvs ''properties''")
    case None
    have "wfS True (Obj (setProp ''properties'' (Obj []) kvs))"
      using assms None unfolding cur wfS_node by (auto simp: requiredOf_Obj)
    then show ?thesis using None by (simp add: ensureObjectProperties_def cur)
  next
    case (Some v)
    then obtain ps where "v = Obj ps" using assms unfolding cur wfS_node by blast
    then show ?thesis using Some assms by (simp add: ensureObjectProperties_def cur)
  qed
qed

lemma map_of_spread_distinct:
  "distinct (map fst a) \<Longrightarrow> distinct (map fst b) \<Longrightarrow>
   map_of (spread (Obj a) b) = map_of a ++ map_of b"
  by (simp add: map_of_spread map_of_rev_distinct)

lemma distinct_spread [simp]: "distinct (map fst (spread a b))"
  by (simp add: spread_def)

lemma wfS_spread:
  assumes w: "wfS True (Obj ekvs)" and l: "leafOK leaf"
  shows "wfS True (Obj (spread (Obj ekvs) leaf))"
proof -
  from w have d: "distinct (map fst ekvs)" unfolding wfS_node by blast
  from l have dl: "distinct (map fst leaf)" and nr: "map_of leaf ''required'' = None"
    and np: "map_of leaf ''properties'' = None"
    and it: "\<And>v. map_of leaf ''items'' = Some v \<Longrightarrow> wfS True v"
    by (auto simp: leafOK_def split: option.splits)
  let ?m = "spread (Obj ekvs) leaf"
  have m: "map_of ?m = map_of ekvs ++ map_of leaf"
    by (rule map_of_spread_distinct [OF d dl])
  have mr: "map_of ?m ''required'' = map_of ekvs ''required''"
    and mp: "map_of ?m ''properties'' = map_of ekvs ''properties''"
    by (simp_all add: m map_add_def nr np)
  have req: "requiredOf (Obj ?m) = requiredOf (Obj ekvs)"
    by (simp add: requiredOf_Obj mr)
  show ?thesis
    unfolding wfS_node [of ?m] req mr mp
  proof (intro conjI allI impI)
    show "distinct (map fst ?m)" by simp
  next
    fix r assume "map_of ekvs ''required'' = Some r"
    then show "isStringList r" using w unfolding wfS_node by blast
  next
    fix v assume "map_of ekvs ''properties'' = Some v"
    then show "\<exists>ps. v = Obj ps \<and> distinct (map fst ps)
        \<and> (\<forall>k n. map_of ps k = Some n \<longrightarrow> wfS True n \<and> childOK (requiredOf (Obj ekvs)) k n)"
      using w unfolding wfS_node by blast
  next
    fix v assume "map_of ?m ''items'' = Some v"
    then have "map_of leaf ''items'' = Some v \<or> map_of ekvs ''items'' = Some v"
      by (auto simp: m map_add_def split: option.splits)
    then show "wfS True v" using it w unfolding wfS_node by blast
  qed
qed

lemma ownProp_Obj: "ownProp (Obj kvs) k = (case map_of kvs k of None \<Rightarrow> Undefined | Some v \<Rightarrow> v)"
  by simp

lemma spread_leaf_shape:
  assumes d: "distinct (map fst ekvs)" and l: "leafOK leaf"
    and nt: "isNullableType (ownProp (Obj leaf) ''type'')"
    and ni: "map_of leaf ''items'' = None"
    and nc: "\<not> hasChildren (Obj ekvs)"
  shows "isNullableType (ownProp (Obj (spread (Obj ekvs) leaf)) ''type'')
    \<and> \<not> hasChildren (Obj (spread (Obj ekvs) leaf))"
proof -
  from l have dl: "distinct (map fst leaf)" and np: "map_of leaf ''properties'' = None"
    by (auto simp: leafOK_def)
  have m: "map_of (spread (Obj ekvs) leaf) = map_of ekvs ++ map_of leaf"
    by (rule map_of_spread_distinct [OF d dl])
  from nt obtain t where t: "map_of leaf ''type'' = Some t" "isNullableType t"
    by (cases "map_of leaf ''type''") auto
  have ty: "ownProp (Obj (spread (Obj ekvs) leaf)) ''type'' = t"
    by (simp add: m map_add_def t)
  have ch: "\<not> hasChildren (Obj (spread (Obj ekvs) leaf))"
    using nc by (auto simp: hasChildren_def m map_add_def np ni split: option.splits)
  show ?thesis using ty t(2) ch by simp
qed

lemma fromObjectPrototype_schema_key [simp]:
  "fromObjectPrototype (Builtin ObjectPrototype) ''properties'' = Undefined"
  "fromObjectPrototype (Builtin ObjectPrototype) ''items'' = Undefined"
  "fromObjectPrototype (Builtin ObjectPrototype) ''required'' = Undefined"
  "fromObjectPrototype (Builtin ObjectPrototype) ''type'' = Undefined"
  by (simp_all add: fromObjectPrototype_def objectPrototypeFunctions_def)

lemma getProp_schema_key:
  "k \<in> {''properties'', ''items'', ''required'', ''type''} \<Longrightarrow> getProp (Obj kvs) k = ownProp (Obj kvs) k"
  by (auto simp: fromObjectPrototype_def objectPrototypeFunctions_def split: option.splits)

lemma fromObjectPrototype_cases:
  "fromObjectPrototype (Builtin ObjectPrototype) k = Undefined
   \<or> (\<exists>b. fromObjectPrototype (Builtin ObjectPrototype) k = Builtin b)"
  by (simp add: fromObjectPrototype_def)

lemma propertyOr_own:
  "map_of ps k = Some n \<Longrightarrow> wfS True n \<Longrightarrow> propertyOr ps k fallback = n"
  using wfS_is_object [of True n] by (auto simp: propertyOr_def coalesce_def)

lemma propertyOr_inherited:
  "map_of ps k = None \<Longrightarrow>
   propertyOr ps k fallback = fallback \<or> (\<exists>b. propertyOr ps k fallback = Builtin b)"
  using fromObjectPrototype_cases [of k] by (auto simp: propertyOr_def coalesce_def)

lemma propertyOr_cases:
  assumes "\<And>n. map_of ps k = Some n \<Longrightarrow> wfS True n" and "wfS True fallback"
  shows "wfS True (propertyOr ps k fallback)
    \<or> (map_of ps k = None \<and> (\<exists>b. propertyOr ps k fallback = Builtin b))"
proof (cases "map_of ps k")
  case None
  then show ?thesis using propertyOr_inherited [OF None, of fallback] assms(2) by auto
next
  case (Some n)
  then show ?thesis using propertyOr_own [OF Some assms(1) [OF Some]] assms(1) [OF Some] by simp
qed

lemma wfS_set_items:
  assumes w: "wfS True (Obj kvs)" and i: "wfS True it"
  shows "wfS True (Obj (setProp ''items'' it kvs))"
proof -
  let ?n = "setProp ''items'' it kvs"
  have req: "requiredOf (Obj ?n) = requiredOf (Obj kvs)" by (simp add: requiredOf_Obj)
  show ?thesis
    unfolding wfS_node [of ?n] req
  proof (intro conjI allI impI)
    show "distinct (map fst ?n)" using w unfolding wfS_node by simp
  next
    fix r assume "map_of ?n ''required'' = Some r"
    then have "map_of kvs ''required'' = Some r" by simp
    then show "isStringList r" using w unfolding wfS_node by blast
  next
    fix v assume "map_of ?n ''properties'' = Some v"
    then have "map_of kvs ''properties'' = Some v" by simp
    then show "\<exists>ps. v = Obj ps \<and> distinct (map fst ps)
        \<and> (\<forall>k n. map_of ps k = Some n \<longrightarrow> wfS True n \<and> childOK (requiredOf (Obj kvs)) k n)"
      using w unfolding wfS_node by blast
  next
    fix v assume "map_of ?n ''items'' = Some v"
    then show "wfS True v" using i by simp
  qed
qed

lemma ensurePathNode_builtin:
  "ensurePathNode (Builtin b) (part # rest) leaf required
   = Inl (BeyondModel ''a node is an object of the runtime'')"
  by (simp add: ensureObjectProperties_def)

lemma spread_builtin: "spread (Builtin b) leaf = spread (Obj []) leaf"
  by (simp add: spread_def)

lemma ensurePathNode_wf:
  assumes "wfS True cur" and "leafFits leaf required"
  shows "okResult (ensurePathNode cur path leaf required)"
  using assms(1)
proof (induction path arbitrary: cur)
  case Nil
  then show ?case by (simp add: okResult_def)
next
  case (Cons part rest)
  from ensureObjectProperties_wf [OF Cons.prems]
  obtain node ps where eo: "ensureObjectProperties cur = Inr (node, ps)"
    and wn: "wfS True (Obj node)" and mp: "map_of node ''properties'' = Some (Obj ps)"
    by blast
  from wn mp have dps: "distinct (map fst ps)"
    and old: "\<And>k n. map_of ps k = Some n \<Longrightarrow> wfS True n \<and> childOK (requiredOf (Obj node)) k n"
    unfolding wfS_node by auto
  let ?k = "pathKey part"
  from assms(2) have lo: "leafOK leaf" by (simp add: leafFits_def)
  show ?case
  proof (cases "assignsPrototype ps ?k")
    case True
    then show ?thesis using eo by (simp add: okResult_def stopsTraversal_def)
  next
    case np: False
    show ?thesis
    proof (cases "rest = []")
      case True
      define existing where "existing = propertyOr ps ?k (Obj [])"
      define ekvs where "ekvs = ownEntries existing"
      have we: "wfS True (Obj ekvs) \<and> spread existing leaf = spread (Obj ekvs) leaf
          \<and> (map_of ps ?k = None \<longrightarrow> ekvs = [])
          \<and> (\<forall>n. map_of ps ?k = Some n \<longrightarrow> n = Obj ekvs)"
      proof (cases "map_of ps ?k")
        case None
        from propertyOr_inherited [OF None, of "Obj []"]
        have "ekvs = []" unfolding ekvs_def existing_def by auto
        moreover have "spread existing leaf = spread (Obj []) leaf"
          using propertyOr_inherited [OF None, of "Obj []"] unfolding existing_def
          by (auto simp: spread_builtin)
        ultimately show ?thesis using None wfS_empty_object by (simp del: wfS.simps)
      next
        case (Some n)
        from old [OF Some] have wn': "wfS True n" by simp
        then obtain nk where nk: "n = Obj nk" using wfS_is_object by blast
        have "existing = n" unfolding existing_def by (rule propertyOr_own [OF Some wn'])
        then show ?thesis using Some wn' nk by (simp add: ekvs_def)
      qed
      define merged where "merged = Obj (spread existing leaf)"
      have me: "merged = Obj (spread (Obj ekvs) leaf)" unfolding merged_def using we by simp
      have wm: "wfS True merged"
        unfolding me by (rule wfS_spread [OF we [THEN conjunct1] lo])
      let ?node1 = "setProp ''properties'' (Obj (setProp ?k merged ps)) node"
      have res: "ensurePathNode cur (part # rest) leaf required =
          Inr (Obj (if required then pushRequired ?node1 ?k else ?node1))"
        using True eo np by (simp add: Let_def existing_def merged_def)
      show ?thesis
      proof (cases required)
        case True
        have "wfS True (Obj (pushRequired ?node1 ?k))"
          by (rule wfS_set_required_child [OF wn mp wm])
        then show ?thesis using res True by (simp add: okResult_def)
      next
        case False
        with assms(2) have nt: "isNullableType (ownProp (Obj leaf) ''type'')"
          and ni: "map_of leaf ''items'' = None"
          by (simp_all add: leafFits_def)
        have ok: "childOK (requiredOf (Obj node)) ?k merged"
          unfolding childOK_def
        proof
          assume nr: "Str ?k \<notin> set (requiredOf (Obj node))"
          have nc: "\<not> hasChildren (Obj ekvs)"
          proof (cases "map_of ps ?k")
            case None
            then have "ekvs = []" using we by simp
            then show ?thesis by (simp add: hasChildren_def)
          next
            case (Some n)
            then have "n = Obj ekvs" using we by simp
            then show ?thesis using old [OF Some] nr by (simp add: childOK_def)
          qed
          from we have de: "distinct (map fst ekvs)" unfolding wfS_node by blast
          show "isNullableType (ownProp merged ''type'') \<and> \<not> hasChildren merged"
            unfolding me by (rule spread_leaf_shape [OF de lo nt ni nc])
        qed
        have "wfS True (Obj ?node1)" by (rule wfS_set_child [OF wn mp wm ok])
        then show ?thesis using res False by (simp add: okResult_def)
      qed
    next
      case False
      show ?thesis
      proof (cases "endsWith part ''[]''")
        case True
        define arr where "arr = propertyOr ps ?k (Obj emptyArraySchema)"
        have "wfS True arr \<or> (\<exists>b. arr = Builtin b)"
          unfolding arr_def using propertyOr_cases [of ps ?k "Obj emptyArraySchema"] old
          by (metis wfS_emptyArraySchema)
        then show ?thesis
        proof
          assume "\<exists>b. arr = Builtin b"
          then obtain b where "arr = Builtin b" by blast
          then show ?thesis using False True eo np
            by (simp add: arr_def [symmetric] okResult_def stopsTraversal_def)
        next
          assume wa: "wfS True arr"
          then obtain akvs where ak: "arr = Obj akvs" using wfS_is_object by blast
          define akvs1 where "akvs1 = (if \<not> toBoolean (getProp (Obj akvs) ''items'')
                                      then setProp ''items'' emptyObjectSchema akvs else akvs)"
          have wa1: "wfS True (Obj akvs1)"
            using wa wfS_set_items [OF wa [unfolded ak] wfS_emptyObjectSchema]
            unfolding ak akvs1_def by simp
          have gi: "getProp (Obj kvs) ''items'' = ownProp (Obj kvs) ''items''" for kvs
            by (rule getProp_schema_key) simp
          have wi: "wfS True (getProp (Obj akvs1) ''items'')"
          proof (cases "map_of akvs ''items''")
            case None
            then show ?thesis unfolding gi by (simp add: akvs1_def gi)
          next
            case (Some v)
            then have wv: "wfS True v" using wa unfolding ak wfS_node by blast
            then obtain ikvs where "v = Obj ikvs" using wfS_is_object by blast
            then show ?thesis using Some wv unfolding gi by (simp add: akvs1_def gi)
          qed
          show ?thesis
          proof (cases "ensurePathNode (getProp (Obj akvs1) ''items'') rest leaf required")
            case (Inl e)
            with Cons.IH [OF wi] have "stopsTraversal e" by (simp add: okResult_def)
            moreover have "ensurePathNode cur (part # rest) leaf required = Inl e"
              using False True eo np Inl ak [unfolded arr_def]
              by (simp add: Let_def akvs1_def)
            ultimately show ?thesis by (simp add: okResult_def)
          next
            case (Inr items)
            with Cons.IH [OF wi] have wit: "wfS True items" by (simp add: okResult_def)
            have wnew: "wfS True (Obj (setProp ''items'' items akvs1))"
              by (rule wfS_set_items [OF wa1 wit])
            have res: "ensurePathNode cur (part # rest) leaf required =
                Inr (Obj (pushRequired
                       (setProp ''properties''
                          (Obj (setProp ?k (Obj (setProp ''items'' items akvs1)) ps)) node) ?k))"
              using False True eo np Inr ak [unfolded arr_def]
              by (simp add: Let_def akvs1_def)
            have "wfS True (Obj (pushRequired
                       (setProp ''properties''
                          (Obj (setProp ?k (Obj (setProp ''items'' items akvs1)) ps)) node) ?k))"
              by (rule wfS_set_required_child [OF wn mp wnew])
            then show ?thesis using res by (simp add: okResult_def)
          qed
        qed
      next
        case nonarr: False
        define nxt where "nxt = propertyOr ps ?k emptyObjectSchema"
        have "wfS True nxt \<or> (\<exists>b. nxt = Builtin b)"
          unfolding nxt_def using propertyOr_cases [of ps ?k emptyObjectSchema] old
          by (metis wfS_emptyObjectSchema)
        then show ?thesis
        proof
          assume "\<exists>b. nxt = Builtin b"
          then obtain b where b: "nxt = Builtin b" by blast
          from False obtain p ps' where r: "rest = p # ps'" by (cases rest) auto
          have "ensurePathNode nxt rest leaf required
              = Inl (BeyondModel ''a node is an object of the runtime'')"
            unfolding b r by (rule ensurePathNode_builtin)
          then show ?thesis using False nonarr eo np
            by (simp add: nxt_def [symmetric] okResult_def stopsTraversal_def)
        next
          assume wc: "wfS True nxt"
          show ?thesis
          proof (cases "ensurePathNode nxt rest leaf required")
            case (Inl e)
            with Cons.IH [OF wc] have "stopsTraversal e" by (simp add: okResult_def)
            moreover have "ensurePathNode cur (part # rest) leaf required = Inl e"
              using False nonarr eo np Inl by (simp add: nxt_def [symmetric])
            ultimately show ?thesis by (simp add: okResult_def)
          next
            case (Inr objNode)
            with Cons.IH [OF wc] have wo: "wfS True objNode" by (simp add: okResult_def)
            have res: "ensurePathNode cur (part # rest) leaf required =
                Inr (Obj (pushRequired
                       (setProp ''properties'' (Obj (setProp ?k objNode ps)) node) ?k))"
              using False nonarr eo np Inr by (simp add: nxt_def [symmetric])
            have "wfS True (Obj (pushRequired
                       (setProp ''properties'' (Obj (setProp ?k objNode ps)) node) ?k))"
              by (rule wfS_set_required_child [OF wn mp wo])
            then show ?thesis using res by (simp add: okResult_def)
          qed
        qed
      qed
    qed
  qed
qed

lemma map_of_foldl_setProp_other:
  "q \<notin> fst ` set es \<Longrightarrow>
   map_of (foldl (\<lambda>obj (k, v). setProp k v obj) acc es) q = map_of acc q"
  by (induction es arbitrary: acc) (auto simp: case_prod_beta)

lemma constraintEntry_keys:
  "fst (constraintEntry c) \<notin> {''type'', ''required'', ''properties'', ''items''}"
  by (cases c) auto

lemma buildFieldSchema_lookup:
  assumes "q \<in> {''type'', ''required'', ''properties'', ''items''}"
  shows "map_of (buildFieldSchema dt nullable cs) q = map_of (mapTypeToSchema dt nullable) q"
proof -
  have "map_of (foldl (\<lambda>node c. setProp (fst (constraintEntry c)) (snd (constraintEntry c)) node) acc cs) q
      = map_of acc q" for acc
    using assms constraintEntry_keys by (induction cs arbitrary: acc) (auto simp del: insert_iff)
  then show ?thesis by (simp add: buildFieldSchema_def)
qed

lemma distinct_buildFieldSchema: "distinct (map fst (buildFieldSchema dt nullable cs))"
proof -
  have a: "distinct (map fst acc) \<Longrightarrow>
      distinct (map fst (foldl (\<lambda>node c. setProp (fst (constraintEntry c)) (snd (constraintEntry c)) node) acc cs))"
    for acc by (induction cs arbitrary: acc) auto
  have "distinct (map fst (mapTypeToSchema dt nullable))"
    by (simp add: mapTypeToSchema_def Let_def)
  then show ?thesis unfolding buildFieldSchema_def by (rule a)
qed

lemma mapTypeToSchema_lookup:
  "map_of (mapTypeToSchema dt nullable) ''required'' = None"
  "map_of (mapTypeToSchema dt nullable) ''properties'' = None"
  "map_of (mapTypeToSchema dt nullable) ''items'' = None"
  by (cases dt; simp add: mapTypeToSchema_def Let_def)+

lemma mapTypeToSchema_type:
  "\<exists>b. map_of (mapTypeToSchema dt nullable) ''type'' =
     Some (if nullable then Arr [Str b, Str ''null''] else Str b)"
  by (cases dt; simp add: mapTypeToSchema_def Let_def)

lemma buildFieldSchema_type:
  "\<exists>b. ownProp (Obj (buildFieldSchema dt nullable cs)) ''type'' =
     (if nullable then Arr [Str b, Str ''null''] else Str b)"
proof -
  from mapTypeToSchema_type [of dt nullable] obtain b where
    "map_of (mapTypeToSchema dt nullable) ''type'' =
       Some (if nullable then Arr [Str b, Str ''null''] else Str b)" by blast
  then have "ownProp (Obj (buildFieldSchema dt nullable cs)) ''type'' =
     (if nullable then Arr [Str b, Str ''null''] else Str b)"
    by (simp add: buildFieldSchema_lookup)
  then show ?thesis by blast
qed

lemma leafFits_buildFieldSchema: "leafFits (buildFieldSchema dt nullable cs) (\<not> nullable)"
proof -
  let ?l = "buildFieldSchema dt nullable cs"
  have r: "map_of ?l ''required'' = None" and p: "map_of ?l ''properties'' = None"
    and i: "map_of ?l ''items'' = None"
    by (simp_all add: buildFieldSchema_lookup mapTypeToSchema_lookup)
  have ok: "leafOK ?l" by (simp add: leafOK_def distinct_buildFieldSchema r p i)
  from buildFieldSchema_type [of dt nullable cs] obtain b where
    t: "ownProp (Obj ?l) ''type'' = (if nullable then Arr [Str b, Str ''null''] else Str b)"
    by blast
  have "nullable \<longrightarrow> isNullableType (ownProp (Obj ?l) ''type'')"
    unfolding t by simp
  then show ?thesis using ok i unfolding leafFits_def by blast
qed

lemma leafFits_emptyArraySchema: "leafFits emptyArraySchema True"
  by (simp add: leafFits_def)

lemma wfS_set_plain:
  assumes w: "wfS True (Obj kvs)" and k: "k \<notin> {''required'', ''properties'', ''items''}"
  shows "wfS True (Obj (setProp k v kvs))"
proof -
  let ?n = "setProp k v kvs"
  from k have ne: "k \<noteq> ''required''" "k \<noteq> ''properties''" "k \<noteq> ''items''" by auto
  have req: "requiredOf (Obj ?n) = requiredOf (Obj kvs)" using ne by (simp add: requiredOf_Obj)
  have m: "map_of ?n ''required'' = map_of kvs ''required''"
    "map_of ?n ''properties'' = map_of kvs ''properties''"
    "map_of ?n ''items'' = map_of kvs ''items''"
    using ne by simp_all
  have d: "distinct (map fst ?n)" using w unfolding wfS_node by simp
  show ?thesis
    using w d unfolding wfS_node [of ?n] wfS_node [of kvs] req m by blast
qed

lemma wfS_foldl_plain:
  assumes "wfS True (Obj kvs)"
    and "\<forall>k \<in> fst ` set es. k \<notin> {''required'', ''properties'', ''items'', ''type''}"
  shows "wfS True (Obj (foldl (\<lambda>obj (k, v). setProp k v obj) kvs es))
    \<and> ownProp (Obj (foldl (\<lambda>obj (k, v). setProp k v obj) kvs es)) ''type'' = ownProp (Obj kvs) ''type''
    \<and> hasChildren (Obj (foldl (\<lambda>obj (k, v). setProp k v obj) kvs es)) = hasChildren (Obj kvs)"
  using assms
proof (induction es arbitrary: kvs)
  case Nil
  then show ?case by simp
next
  case (Cons e es)
  obtain k v where e: "e = (k, v)" by (cases e)
  from Cons.prems(2) e have k: "k \<notin> {''required'', ''properties'', ''items''}" and kt: "k \<noteq> ''type''"
    and kp: "k \<noteq> ''properties''" and ki: "k \<noteq> ''items''"
    and rest: "\<forall>k \<in> fst ` set es. k \<notin> {''required'', ''properties'', ''items'', ''type''}"
    by auto
  have w1: "wfS True (Obj (setProp k v kvs))" by (rule wfS_set_plain [OF Cons.prems(1) k])
  have s1: "ownProp (Obj (setProp k v kvs)) ''type'' = ownProp (Obj kvs) ''type''"
    "hasChildren (Obj (setProp k v kvs)) = hasChildren (Obj kvs)"
    using kt kp ki by (simp_all add: hasChildren_def)
  show ?case using Cons.IH [OF w1 rest] s1 by (simp add: e)
qed

lemma applySemantic_node:
  assumes w: "wfS True n"
  shows "\<exists>n'. applySemantic n sem = Inr n' \<and> wfS True n' \<and> ownProp n' ''type'' = ownProp n ''type''
             \<and> hasChildren n' = hasChildren n"
proof -
  from w obtain kvs where n: "n = Obj kvs" using wfS_is_object by blast
  show ?thesis
  proof (cases sem)
    case None
    then show ?thesis using w by (simp add: applySemantic_def)
  next
    case (Some s)
    define assignments where "assignments =
                (if truthyAttr (semDescription s)
                 then [(''description'', Str (the (semDescription s)))] else [])
                @ (if truthyAttr (semInstruction s)
                   then [(''x-instruction'', Str (the (semInstruction s)))] else [])
                @ (case semExamples s of
                     None \<Rightarrow> []
                   | Some ex \<Rightarrow> if ex = [] then [] else [(''examples'', Arr (map Str ex))])"
    have keys: "\<forall>k \<in> fst ` set assignments. k \<notin> {''required'', ''properties'', ''items'', ''type''}"
      by (auto simp: assignments_def split: option.splits if_splits)
    have r: "applySemantic n sem =
        (if assignments = [] then Inr n
         else Inr (Obj (foldl (\<lambda>obj (k, v). setProp k v obj) kvs assignments)))"
      by (simp add: applySemantic_def Some n Let_def assignments_def)
    show ?thesis
    proof (cases "assignments = []")
      case True
      then show ?thesis using w r by simp
    next
      case False
      then show ?thesis
        using wfS_foldl_plain [OF w [unfolded n] keys] r n by (simp del: wfS.simps)
    qed
  qed
qed

lemma applySemantic_builtin:
  "case applySemantic (Builtin b) sem of Inl e \<Rightarrow> stopsTraversal e | Inr n' \<Rightarrow> n' = Builtin b"
  by (cases sem) (simp_all add: applySemantic_def Let_def stopsTraversal_def)

lemma applySemantic_keeps: "keepsNode (\<lambda>n. applySemantic n sem)"
  unfolding keepsNode_def
proof (intro conjI allI impI)
  fix n assume "wfS True n"
  then show "\<exists>n'. applySemantic n sem = Inr n' \<and> wfS True n' \<and> ownProp n' ''type'' = ownProp n ''type''
             \<and> hasChildren n' = hasChildren n"
    by (rule applySemantic_node)
next
  fix b
  show "case applySemantic (Builtin b) sem of Inl e \<Rightarrow> stopsTraversal e | Inr n' \<Rightarrow> True"
    using applySemantic_builtin [of b sem] by (simp split: sum.splits)
qed

lemma applySemantic_twice_keeps:
  "keepsNode (\<lambda>n. case applySemantic n sem1 of Inl e \<Rightarrow> Inl e | Inr n1 \<Rightarrow> applySemantic n1 sem2)"
  unfolding keepsNode_def
proof (intro conjI allI impI)
  fix n assume "wfS True n"
  from applySemantic_node [OF this, of sem1] obtain n1 where
    f: "applySemantic n sem1 = Inr n1" "wfS True n1"
    "ownProp n1 ''type'' = ownProp n ''type''" "hasChildren n1 = hasChildren n" by blast
  from applySemantic_node [OF f(2), of sem2] obtain n2 where
    g: "applySemantic n1 sem2 = Inr n2" "wfS True n2"
    "ownProp n2 ''type'' = ownProp n1 ''type''" "hasChildren n2 = hasChildren n1" by blast
  show "\<exists>n'. (case applySemantic n sem1 of Inl e \<Rightarrow> Inl e | Inr n1 \<Rightarrow> applySemantic n1 sem2) = Inr n'
      \<and> wfS True n' \<and> ownProp n' ''type'' = ownProp n ''type'' \<and> hasChildren n' = hasChildren n"
    using f g by simp
next
  fix b
  show "case (case applySemantic (Builtin b) sem1 of Inl e \<Rightarrow> Inl e
              | Inr n1 \<Rightarrow> applySemantic n1 sem2) of
          Inl e \<Rightarrow> stopsTraversal e | Inr n' \<Rightarrow> True"
    using applySemantic_builtin [of b sem1] applySemantic_builtin [of b sem2]
    by (auto split: sum.splits)
qed

lemma childOK_same_shape:
  "childOK req k n \<Longrightarrow> ownProp n' ''type'' = ownProp n ''type'' \<Longrightarrow>
   hasChildren n' = hasChildren n \<Longrightarrow> childOK req k n'"
  by (simp add: childOK_def)

lemma keptResult_same: "wfS True n \<Longrightarrow> keptResult n (Inr n)"
  by (simp add: keptResult_def)

lemma updateFieldSchema_wf:
  assumes f: "keepsNode f" and w: "wfS True cur"
  shows "keptResult cur (updateFieldSchema f cur path)"
  using w
proof (induction path arbitrary: cur)
  case Nil
  then show ?case by (simp add: keptResult_def)
next
  case (Cons part rest)
  from Cons.prems obtain node where cur: "cur = Obj node" using wfS_is_object by blast
  let ?k = "pathKey part"
  note same = keptResult_same [OF Cons.prems]
  show ?case
  proof (cases "map_of node ''properties''")
    case None
    then have "updateFieldSchema f cur (part # rest) = Inr cur" by (simp add: cur)
    then show ?thesis using same by simp
  next
    case (Some pv)
    with Cons.prems obtain ps where pv: "pv = Obj ps" and dps: "distinct (map fst ps)"
      and old: "\<And>k n. map_of ps k = Some n \<Longrightarrow> wfS True n \<and> childOK (requiredOf (Obj node)) k n"
      unfolding cur wfS_node by blast
    have mp: "map_of node ''properties'' = Some (Obj ps)" using Some pv by simp
    have shape: "ownProp (Obj (setProp ''properties'' (Obj (setProp ?k c ps)) node)) ''type''
          = ownProp cur ''type''
        \<and> hasChildren (Obj (setProp ''properties'' (Obj (setProp ?k c ps)) node)) = hasChildren cur"
      for c using mp by (simp add: cur hasChildren_def)
    show ?thesis
    proof (cases "map_of ps ?k")
      case None
      define v where "v = fromObjectPrototype (Builtin ObjectPrototype) ?k"
      have u: "updateFieldSchema f cur (part # rest) =
          (if \<not> toBoolean v then Inr cur
           else if rest = [] then (case f v of Inl e \<Rightarrow> Inl e | Inr nxt1 \<Rightarrow> Inr cur)
           else Inr cur)"
        using mp None unfolding cur by (simp add: v_def)
      from fromObjectPrototype_cases [of ?k] show ?thesis
      proof
        assume "fromObjectPrototype (Builtin ObjectPrototype) ?k = Undefined"
        then show ?thesis using u same by (simp add: v_def)
      next
        assume "\<exists>b. fromObjectPrototype (Builtin ObjectPrototype) ?k = Builtin b"
        then obtain b where b: "v = Builtin b" unfolding v_def by blast
        from f have "case f (Builtin b) of Inl e \<Rightarrow> stopsTraversal e | Inr n' \<Rightarrow> True"
          unfolding keepsNode_def by blast
        then show ?thesis using u same unfolding b
          by (cases "f (Builtin b)") (simp_all add: keptResult_def)
      qed
    next
      case n: (Some n)
      from old [OF n] have wn: "wfS True n" and okn: "childOK (requiredOf (Obj node)) ?k n" by auto
      from wn obtain nkvs where nk: "n = Obj nkvs" using wfS_is_object by blast
      have put: "wfS True (Obj (setProp ''properties'' (Obj (setProp ?k c ps)) node))"
        if "wfS True c" "ownProp c ''type'' = ownProp n ''type''" "hasChildren c = hasChildren n" for c
        by (rule wfS_set_child [OF Cons.prems [unfolded cur] mp that(1)
              childOK_same_shape [OF okn that(2,3)]])
      show ?thesis
      proof (cases "rest = []")
        case True
        from f wn obtain n' where fn: "f n = Inr n'" "wfS True n'"
          "ownProp n' ''type'' = ownProp n ''type''" "hasChildren n' = hasChildren n"
          unfolding keepsNode_def by blast
        have "updateFieldSchema f cur (part # rest) =
            Inr (Obj (setProp ''properties'' (Obj (setProp ?k n' ps)) node))"
          using True mp n fn(1) nk by (simp add: cur)
        then show ?thesis using put [OF fn(2,3,4)] shape by (simp add: keptResult_def)
      next
        case False
        show ?thesis
        proof (cases "endsWith part ''[]''")
          case True
          show ?thesis
          proof (cases "map_of nkvs ''items''")
            case None
            then have "updateFieldSchema f cur (part # rest) = Inr cur"
              using False True mp n nk by (simp add: cur)
            then show ?thesis using same by simp
          next
            case (Some it)
            then have wi: "wfS True it" using wn unfolding nk wfS_node by blast
            then obtain ikvs where ik: "it = Obj ikvs" using wfS_is_object by blast
            show ?thesis
            proof (cases "updateFieldSchema f it rest")
              case (Inl e)
              with Cons.IH [OF wi] have "stopsTraversal e" by (simp add: keptResult_def)
              moreover have "updateFieldSchema f cur (part # rest) = Inl e"
                using False True mp n nk Some ik Inl by (simp add: cur)
              ultimately show ?thesis by (simp add: keptResult_def)
            next
              case (Inr it')
              with Cons.IH [OF wi] have wi': "wfS True it'" by (simp add: keptResult_def)
              from wi' obtain ikvs' where ik': "it' = Obj ikvs'" using wfS_is_object by blast
              let ?c = "Obj (setProp ''items'' it' nkvs)"
              have wc: "wfS True ?c" by (rule wfS_set_items [OF wn [unfolded nk] wi'])
              have sc: "ownProp ?c ''type'' = ownProp n ''type''" "hasChildren ?c = hasChildren n"
                using Some by (simp_all add: nk hasChildren_def ik ik')
              have "updateFieldSchema f cur (part # rest) =
                  Inr (Obj (setProp ''properties'' (Obj (setProp ?k ?c ps)) node))"
                using False True mp n nk Some ik Inr by (simp add: cur)
              then show ?thesis using put [OF wc sc] shape by (simp add: keptResult_def)
            qed
          qed
        next
          case nonarr: False
          show ?thesis
          proof (cases "updateFieldSchema f n rest")
            case (Inl e)
            with Cons.IH [OF wn] have "stopsTraversal e" by (simp add: keptResult_def)
            moreover have "updateFieldSchema f cur (part # rest) = Inl e"
              using False nonarr mp n nk Inl by (simp add: cur)
            ultimately show ?thesis by (simp add: keptResult_def)
          next
            case (Inr n')
            with Cons.IH [OF wn] have wn': "wfS True n'"
              and sn: "ownProp n' ''type'' = ownProp n ''type''" "hasChildren n' = hasChildren n"
              by (simp_all add: keptResult_def)
            have "updateFieldSchema f cur (part # rest) =
                Inr (Obj (setProp ''properties'' (Obj (setProp ?k n' ps)) node))"
              using False nonarr mp n nk Inr by (simp add: cur)
            then show ?thesis using put [OF wn' sn] shape by (simp add: keptResult_def)
          qed
        qed
      qed
    qed
  qed
qed

lemma normalizePathOf_error: "normalizePathOf path = Inl e \<Longrightarrow> stopsTraversal e"
  by (auto simp: normalizePathOf_def stopsTraversal_def split: jsval.splits)

lemma applyInterpolationSchema_wf:
  "wfS True schema \<Longrightarrow> okResult (applyInterpolationSchema schema path seg)"
  unfolding applyInterpolationSchema_def
  using ensurePathNode_wf [OF _ leafFits_buildFieldSchema] normalizePathOf_error [of path]
  by (cases "normalizePathOf path") (simp_all add: okResult_def)

lemma ensureArrayPath_wf:
  "wfS True schema \<Longrightarrow> okResult (ensureArrayPath schema path True)"
  unfolding ensureArrayPath_def
  using ensurePathNode_wf [OF _ leafFits_emptyArraySchema] normalizePathOf_error [of path]
  by (cases "normalizePathOf path") (simp_all add: okResult_def)

lemma walkSegment_wf:
  assumes "wfS True schema"
  shows "okResult (walkSegment h schema ctx metaSemantics segment)"
proof (cases segment)
  case (Literal v)
  then show ?thesis using assms by (simp add: walkSegment_def okResult_def)
next
  case (Interpolation seg)
  let ?p = "resolvePathWithAliases h (segPath seg) (travAliases ctx)"
  let ?f = "\<lambda>fieldSchema.
              case applySemantic fieldSchema (metaSemantics (jsString h ?p)) of
                Inl e \<Rightarrow> Inl e
              | Inr fieldSchema1 \<Rightarrow> applySemantic fieldSchema1 (inlineSemantic ctx)"
  show ?thesis
  proof (cases "applyInterpolationSchema schema ?p seg")
    case (Inl e)
    then show ?thesis using applyInterpolationSchema_wf [OF assms, of ?p seg]
      by (simp add: walkSegment_def Interpolation Let_def okResult_def)
  next
    case (Inr s1)
    then have w1: "wfS True s1" using applyInterpolationSchema_wf [OF assms, of ?p seg]
      by (simp add: okResult_def)
    show ?thesis
    proof (cases "normalizePathOf ?p")
      case e: (Inl e)
      then show ?thesis using Inr normalizePathOf_error [OF e]
        by (simp add: walkSegment_def Interpolation Let_def okResult_def)
    next
      case parts: (Inr parts)
      have "keptResult s1 (updateFieldSchema ?f s1 parts)"
        by (rule updateFieldSchema_wf [OF applySemantic_twice_keeps w1])
      then have "okResult (updateFieldSchema ?f s1 parts)"
        by (auto simp: keptResult_def okResult_def split: sum.splits)
      then show ?thesis using Inr parts
        by (simp add: walkSegment_def Interpolation Let_def)
    qed
  qed
qed

lemma foldE_wf:
  assumes "\<And>s x. wfS True s \<Longrightarrow> okResult (f s x)" and "wfS True s"
  shows "okResult (foldE f s xs)"
  using assms(2)
proof (induction xs arbitrary: s)
  case Nil
  then show ?case by (simp add: okResult_def)
next
  case (Cons x xs)
  show ?case
  proof (cases "f s x")
    case (Inl e)
    then show ?thesis using assms(1) [OF Cons.prems, of x] by (simp add: okResult_def)
  next
    case (Inr s1)
    then have "wfS True s1" using assms(1) [OF Cons.prems, of x] by (simp add: okResult_def)
    from Cons.IH [OF this] show ?thesis using Inr by simp
  qed
qed

lemma parseIterationExpression_error:
  "parseIterationExpression expr = Inl e \<Longrightarrow> stopsTraversal e"
  by (auto simp: parseIterationExpression_def stopsTraversal_def startsWith_def
      split: option.splits)

lemma walkIteration_wf:
  assumes "wfS True (fst st)"
  shows "case walkIteration h expr st of
           Inl e \<Rightarrow> stopsTraversal e
         | Inr st1 \<Rightarrow> wfS True (fst st1)"
proof (cases "truthyAttr expr")
  case False
  then show ?thesis using assms by (simp add: walkIteration_def)
next
  case True
  show ?thesis
  proof (cases "parseIterationExpression (the expr)")
    case (Inl e)
    then show ?thesis using True parseIterationExpression_error [OF Inl]
      by (simp add: walkIteration_def)
  next
    case (Inr pa)
    obtain ppath palias where pa: "pa = (ppath, palias)" by (cases pa)
    let ?path = "resolvePathWithAliases h ppath (travAliases (snd st))"
    from ensureArrayPath_wf [OF assms, of ?path] show ?thesis using True Inr pa
      by (cases "ensureArrayPath (fst st) ?path True")
         (simp_all add: walkIteration_def Let_def okResult_def)
  qed
qed

lemma walkCondition_wf:
  assumes "wfS True schema"
  shows "okResult (walkCondition h condition schema ctx)"
  using assms applyInterpolationSchema_wf [OF assms]
  by (simp add: walkCondition_def Let_def okResult_def)

lemma walk_wf:
  "wfS True schema \<Longrightarrow> okResult (walkNode h node schema ctx ms dl)"
  "wfS True schema \<Longrightarrow> okResult (walkElement h el schema ctx ms dl)"
  "wfS True schema \<Longrightarrow> okResult (walkChildren h kids schema ctx ms dl)"
proof (induction h node schema ctx ms dl and h el schema ctx ms dl and h kids schema ctx ms dl
    rule: walkNode_walkElement_walkChildren.induct)
  case (1 h segments schema ctx metaSemantics examplesDelimiter)
  have "okResult (foldE (\<lambda>s segment. walkSegment h s ctx metaSemantics segment) schema segments)"
  proof (rule foldE_wf [OF _ 1])
    fix s x assume "wfS True s"
    from walkSegment_wf [OF this, of h ctx metaSemantics x]
    show "okResult (walkSegment h s ctx metaSemantics x)" .
  qed
  then show ?case by simp
next
  case (2 h node schema ctx metaSemantics examplesDelimiter)
  then show ?case by simp
next
  case (3 h tag attrs kids schema ctx metaSemantics examplesDelimiter)
  let ?node = "ElementNode tag attrs kids"
  let ?next = "\<lparr>travAliases = travAliases ctx,
                inlineSemantic = buildInlineSemantic ?node (inlineSemantic ctx) examplesDelimiter\<rparr>"
  show ?case
  proof (cases "tag = ''meta''")
    case True
    then show ?thesis using 3(2) by (simp add: okResult_def)
  next
    case False
    show ?thesis
    proof (cases "walkIteration h (attr ?node ''data-page'') (schema, ?next)")
      case (Inl e)
      then show ?thesis
        using False walkIteration_wf [of "(schema, ?next)" h "attr ?node ''data-page''"] 3(2)
        by (simp add: okResult_def Let_def)
    next
      case st1: (Inr st1)
      have w1: "wfS True (fst st1)"
        using walkIteration_wf [of "(schema, ?next)" h "attr ?node ''data-page''"] 3(2) st1 by simp
      show ?thesis
      proof (cases "walkIteration h (attr ?node ''data-repeat'') st1")
        case (Inl e)
        then show ?thesis
          using False st1 walkIteration_wf [OF w1, of h "attr ?node ''data-repeat''"]
          by (simp add: okResult_def Let_def)
      next
        case st2: (Inr st2)
        have w2: "wfS True (fst st2)"
          using walkIteration_wf [OF w1, of h "attr ?node ''data-repeat''"] st2 by simp
        show ?thesis
        proof (cases "walkCondition h (attr ?node ''data-if'') (fst st2) (snd st2)")
          case (Inl e)
          then show ?thesis
            using False st1 st2 walkCondition_wf [OF w2, of h "attr ?node ''data-if''" "snd st2"]
            by (simp add: okResult_def Let_def)
        next
          case c: (Inr s3)
          then have w3: "wfS True s3"
            using walkCondition_wf [OF w2, of h "attr ?node ''data-if''" "snd st2"]
            by (simp add: okResult_def)
          have "okResult (walkChildren h kids s3 (snd st2) metaSemantics examplesDelimiter)"
            using 3(1) [OF refl False refl st1 st2 c w3] .
          then show ?thesis using False st1 st2 c by (simp add: Let_def)
        qed
      qed
    qed
  qed
next
  case (4 h schema ctx metaSemantics examplesDelimiter)
  then show ?case by (simp add: okResult_def)
next
  case (5 h child rest schema ctx metaSemantics examplesDelimiter)
  show ?case
  proof (cases "walkNode h child schema ctx metaSemantics examplesDelimiter")
    case (Inl e)
    then show ?thesis using 5(1) [OF 5(3)] by (simp add: okResult_def)
  next
    case (Inr s1)
    then have "wfS True s1" using 5(1) [OF 5(3)] by (simp add: okResult_def)
    from 5(2) [OF Inr this] show ?thesis using Inr by simp
  qed
qed

lemma initial_schema_wf:
  "wfS True (Obj [(''$schema'', Str ''https://json-schema.org/draft/2020-12/schema''),
                        (''type'', Str ''object''),
                        (''properties'', Obj []),
                        (''required'', Arr [])])"
  unfolding wfS_node by simp

section \<open>Sorting\<close>

lemma stableSortObject_Obj:
  "stableSortObject h (Obj kvs) =
     Obj (fromEntries (map (\<lambda>(k, nested). (k, sortedValue h k nested))
                         (sort (key fst (localeCompare h)) kvs)))"
proof -
  have "(\<lambda>(k, nested).
           if k = ''required'' \<and> isArray nested
           then (k, Arr (defaultSort h (case nested of Arr xs \<Rightarrow> xs | _ \<Rightarrow> [])))
           else (k, stableSortObject h nested))
        = (\<lambda>(k, nested). (k, sortedValue h k nested))"
    by (auto simp: fun_eq_iff sortedValue_def)
  then show ?thesis by simp
qed

lemma keys_mapped_entries: "map fst (map (\<lambda>(k, n). (k, f k n)) es) = map fst es"
  by (induction es) auto

lemma map_of_mapped_entries:
  "map_of (map (\<lambda>(k, n). (k, f k n)) es) k = map_option (f k) (map_of es k)"
  by (induction es) auto

lemma distinct_sort_keys: "distinct (map fst (sort cmp kvs)) = distinct (map fst kvs)"
proof -
  have "mset (map fst (sort cmp kvs)) = mset (map fst kvs)" by simp
  then show ?thesis by (rule mset_eq_imp_distinct_iff)
qed

lemma map_of_sort: "distinct (map fst kvs) \<Longrightarrow> map_of (sort cmp kvs) = map_of kvs"
  by (rule map_of_inject_set [THEN iffD2]) (simp_all add: distinct_sort_keys)

lemma lookup_sorted:
  assumes "distinct (map fst kvs)"
  shows "\<exists>kvs'. stableSortObject h (Obj kvs) = Obj kvs' \<and> distinct (map fst kvs')
            \<and> (\<forall>k. map_of kvs' k = map_option (sortedValue h k) (map_of kvs k))"
proof -
  let ?es = "map (\<lambda>(k, n). (k, sortedValue h k n)) (sort (key fst (localeCompare h)) kvs)"
  have d: "distinct (map fst ?es)"
    by (simp only: keys_mapped_entries distinct_sort_keys assms)
  have "map_of (fromEntries ?es) k = map_option (sortedValue h k) (map_of kvs k)" for k
    by (simp only: map_of_fromEntries map_of_rev_distinct [OF d] map_of_mapped_entries
        map_of_sort [OF assms])
  then show ?thesis unfolding stableSortObject_Obj by simp
qed

lemma set_defaultSort [simp]: "set (defaultSort h xs) = set xs"
  by (auto simp: defaultSort_def)



lemma stableSortObject_builtin:
  "stableSortObject h (Builtin b) \<noteq> Undefined"
  "isArray (stableSortObject h (Builtin b)) = isArray (Builtin b)"
  "(case stableSortObject h (Builtin b) of Arr xs \<Rightarrow> xs | _ \<Rightarrow> []) = []"
  by (cases b; simp)+

lemma isArray_sorted: "isArray (stableSortObject h v) = isArray v"
  by (cases v) (simp_all add: stableSortObject_builtin)

lemma stableSortObject_Undefined_iff: "stableSortObject h v = Undefined \<longleftrightarrow> v = Undefined"
  by (cases v) (simp_all add: stableSortObject_builtin)


lemma ownProp_sorted:
  assumes "distinct (map fst kvs)"
  shows "ownProp (stableSortObject h (Obj kvs)) q =
           (case map_of kvs q of None \<Rightarrow> Undefined | Some v \<Rightarrow> sortedValue h q v)"
proof -
  from lookup_sorted [OF assms, of h] obtain kvs' where
    s: "stableSortObject h (Obj kvs) = Obj kvs'"
    and l: "\<And>k. map_of kvs' k = map_option (sortedValue h k) (map_of kvs k)" by blast
  show ?thesis unfolding s ownProp_Obj l by (simp split: option.splits)
qed

lemma requiredOf_sorted:
  assumes "distinct (map fst kvs)"
  shows "requiredOf (stableSortObject h (Obj kvs)) = defaultSort h (requiredOf (Obj kvs))"
proof (cases "map_of kvs ''required''")
  case None
  then show ?thesis
    unfolding requiredOf_def ownProp_sorted [OF assms] ownProp_Obj
    by (simp add: defaultSort_def)
next
  case (Some r)
  then show ?thesis
    unfolding requiredOf_def ownProp_sorted [OF assms] ownProp_Obj
    by (cases r) (simp_all add: sortedValue_def defaultSort_def stableSortObject_builtin)
qed






section \<open>The canonical form\<close>

lemma fromEntries_snoc: "fromEntries (es @ [(k, v)]) = setProp k v (fromEntries es)"
  by (simp add: fromEntries_def)

lemma set_keys_fromEntries: "set (map fst (fromEntries es)) = set (map fst es)"
proof (induction es rule: rev_induct)
  case Nil
  show ?case by (simp add: fromEntries_def)
next
  case (snoc e es)
  obtain k v where e: "e = (k, v)" by (cases e)
  show ?case unfolding e fromEntries_snoc set_keys_setProp using snoc by auto
qed

lemma set_fromEntries_subset: "(k, v) \<in> set (fromEntries es) \<Longrightarrow> (k, v) \<in> set es"
proof -
  assume "(k, v) \<in> set (fromEntries es)"
  then have "map_of (fromEntries es) k = Some v" by simp
  then have "map_of (rev es) k = Some v" by (simp only: map_of_fromEntries)
  then show ?thesis by (auto dest: map_of_SomeD)
qed

lemma keysOrdered_Nil: "keysOrdered h []"
  by (simp add: keysOrdered_def)

lemma keysOrdered_Cons_index:
  "isIndexKey k \<Longrightarrow>
   keysOrdered h (k # ks) \<longleftrightarrow>
     keysOrdered h ks \<and> (\<forall>x \<in> set ks. isIndexKey x \<longrightarrow> natOfDigits k \<le> natOfDigits x)"
  by (auto simp: keysOrdered_def)

lemma keysOrdered_Cons_other:
  assumes "\<not> isIndexKey k" and "keysOrdered h (k # ks)"
  shows "\<forall>x \<in> set ks. \<not> isIndexKey x"
proof -
  from assms have e: "k # ks = filter isIndexKey ks @ k # filter (\<lambda>k. \<not> isIndexKey k) ks"
    by (simp add: keysOrdered_def)
  have "filter isIndexKey ks = []"
  proof (cases "filter isIndexKey ks")
    case Nil
    then show ?thesis .
  next
    case (Cons a as)
    then have "a \<in> set (filter isIndexKey ks)" by simp
    moreover from e Cons have "a = k" by simp
    ultimately show ?thesis using assms(1) by simp
  qed
  then show ?thesis by (simp add: filter_empty_conv)
qed

lemma keysOrdered_insertIndexed:
  "isIndexKey k \<Longrightarrow> keysOrdered h (map fst ps) \<Longrightarrow> keysOrdered h (map fst (insertIndexed k v ps))"
proof (induction ps)
  case Nil
  then show ?case by (simp add: keysOrdered_def)
next
  case (Cons p ps)
  obtain k' v' where p: "p = (k', v')" by (cases p)
  show ?case
  proof (cases "isIndexKey k' \<and> natOfDigits k' < natOfDigits k")
    case True
    from Cons.prems(2) True have o: "keysOrdered h (map fst ps)"
      and a: "\<forall>x \<in> set (map fst ps). isIndexKey x \<longrightarrow> natOfDigits k' \<le> natOfDigits x"
      by (simp_all add: p keysOrdered_Cons_index)
    have "keysOrdered h (k' # map fst (insertIndexed k v ps))"
      unfolding keysOrdered_Cons_index [of k', OF conjunct1 [OF True]] set_keys_insertIndexed
      using Cons.IH [OF Cons.prems(1) o] a True by auto
    then show ?thesis using True by (simp add: p)
  next
    case False
    have "\<forall>x \<in> set (k' # map fst ps). isIndexKey x \<longrightarrow> natOfDigits k \<le> natOfDigits x"
    proof (cases "isIndexKey k'")
      case True
      with False have le: "natOfDigits k \<le> natOfDigits k'" by simp
      from Cons.prems(2) True
      have "\<forall>x \<in> set (map fst ps). isIndexKey x \<longrightarrow> natOfDigits k' \<le> natOfDigits x"
        by (simp add: p keysOrdered_Cons_index)
      with le show ?thesis by auto
    next
      case f: False
      from keysOrdered_Cons_other [OF f, of h "map fst ps"] Cons.prems(2)
      have "\<forall>x \<in> set (map fst ps). \<not> isIndexKey x" by (simp add: p)
      with f show ?thesis by auto
    qed
    then have "keysOrdered h (k # k' # map fst ps)"
      unfolding keysOrdered_Cons_index [of k, OF Cons.prems(1)]
      using Cons.prems(2) by (simp add: p)
    then show ?thesis using False by (auto simp: p)
  qed
qed

lemma keysOrdered_snoc:
  assumes "\<not> isIndexKey k" and "keysOrdered h ks"
    and "\<forall>x \<in> set ks. compare (localeCompare h) x k \<noteq> Greater"
  shows "keysOrdered h (ks @ [k])"
  using assms by (auto simp: keysOrdered_def sorted_append_iff)

lemma keysOrdered_setProp:
  assumes "keysOrdered h (map fst ps)"
    and "\<forall>x \<in> set (map fst ps). compare (localeCompare h) x k \<noteq> Greater"
  shows "keysOrdered h (map fst (setProp k v ps))"
proof (cases "map_of ps k \<noteq> None")
  case True
  then show ?thesis using assms(1) by (simp add: setProp_def keys_updateExisting)
next
  case False
  show ?thesis
  proof (cases "isIndexKey k")
    case True
    then show ?thesis using False keysOrdered_insertIndexed [OF True assms(1)]
      by (simp add: setProp_def)
  next
    case f: False
    from keysOrdered_snoc [OF f assms] show ?thesis using False f by (simp add: setProp_def)
  qed
qed

lemma keysOrdered_fromEntries:
  "sorted (localeCompare h) (map fst es) \<Longrightarrow> keysOrdered h (map fst (fromEntries es))"
proof (induction es rule: rev_induct)
  case Nil
  show ?case by (simp add: fromEntries_def keysOrdered_Nil)
next
  case (snoc e es)
  obtain k v where e: "e = (k, v)" by (cases e)
  from snoc.prems have s: "sorted (localeCompare h) (map fst es)"
    and a: "\<forall>x \<in> set (map fst es). compare (localeCompare h) x k \<noteq> Greater"
    by (simp_all add: e sorted_append_iff)
  from a have "\<forall>x \<in> set (map fst (fromEntries es)). compare (localeCompare h) x k \<noteq> Greater"
    unfolding set_keys_fromEntries .
  from keysOrdered_setProp [OF snoc.IH [OF s] this]
  show ?case unfolding e fromEntries_snoc .
qed

lemma sorted_key_map: "sorted (key f cmp) xs \<longleftrightarrow> sorted cmp (map f xs)"
  by (induction xs rule: induct_list012) simp_all

lemma defaultSorted_defaultSort: "defaultSorted h (defaultSort h xs)"
proof -
  let ?S = "sort (key (jsString h) default) (filter (\<lambda>x. x \<noteq> Undefined) xs)"
  let ?U = "filter (\<lambda>x. x = Undefined) xs"
  have 1: "filter (\<lambda>x. x \<noteq> Undefined) ?S = ?S" by (rule filter_True) simp
  have 2: "filter (\<lambda>x. x \<noteq> Undefined) ?U = []" by (rule filter_False) simp
  have 3: "filter (\<lambda>x. x = Undefined) ?S = []" by (rule filter_False) simp
  have 4: "filter (\<lambda>x. x = Undefined) ?U = ?U" by (rule filter_True) simp
  show ?thesis unfolding defaultSorted_def defaultSort_def filter_append 1 2 3 4 by simp
qed

lemma stableSortObject_canonical: "canonical h (stableSortObject h v)"
proof (induction h v rule: stableSortObject.induct)
  case (2 h kvs)
  let ?es = "map (\<lambda>(k, nested). (k, sortedValue h k nested))
               (sort (key fst (localeCompare h)) kvs)"
  have "sorted (localeCompare h) (map fst ?es)"
    unfolding keys_mapped_entries sorted_key_map [symmetric] by simp
  then have ko: "keysOrdered h (map fst (fromEntries ?es))" by (rule keysOrdered_fromEntries)
  have vals: "if k = ''required'' \<and> isArray v
              then defaultSorted h (case v of Arr xs \<Rightarrow> xs | _ \<Rightarrow> [])
              else canonical h v" if "(k, v) \<in> set (fromEntries ?es)" for k v
  proof -
    from set_fromEntries_subset [OF that] obtain nested where
      m: "(k, nested) \<in> set (sort (key fst (localeCompare h)) kvs)"
      and v: "v = sortedValue h k nested" by auto
    show ?thesis
    proof (cases "k = ''required'' \<and> isArray nested")
      case True
      then show ?thesis by (simp add: v sortedValue_def defaultSorted_defaultSort)
    next
      case False
      then have e: "v = stableSortObject h nested" by (auto simp: v sortedValue_def)
      from False have "k = ''required'' \<Longrightarrow> \<not> isArray v" unfolding e isArray_sorted by simp
      moreover from "2.IH" [OF m refl False] have "canonical h v" unfolding e .
      ultimately show ?thesis by auto
    qed
  qed
  show ?case unfolding stableSortObject_Obj canonical.simps using ko vals by blast
qed (simp_all add: keysOrdered_Nil)

section \<open>The extracted schema\<close>

lemma extract_Inr:
  assumes "extractSchemaFromAst h rootNode opt = Inr s"
  shows "\<exists>s1. wfS True s1 \<and> s = stableSortObject h s1"
proof -
  define dl where "dl = (case opt of None \<Rightarrow> gcExamplesDelimiter (collectGlobalConfig rootNode)
                                       | Some d \<Rightarrow> d)"
  define r where "r = walkElement h rootNode
      (Obj [(''$schema'', Str ''https://json-schema.org/draft/2020-12/schema''),
            (''type'', Str ''object''), (''properties'', Obj []), (''required'', Arr [])])
      \<lparr>travAliases = Map.empty, inlineSemantic = None\<rparr>
      (collectMetaSemantics rootNode dl) dl"
  have ok: "okResult r" unfolding r_def by (rule walk_wf(2) [OF initial_schema_wf])
  have e: "extractSchemaFromAst h rootNode opt =
      (case r of Inl e \<Rightarrow> Inl e | Inr s1 \<Rightarrow> Inr (stableSortObject h s1))"
    unfolding extractSchemaFromAst_def Let_def r_def dl_def ..
  from assms ok show ?thesis unfolding e okResult_def by (cases r) auto
qed

lemma extract_Inl:
  assumes "extractSchemaFromAst h rootNode opt = Inl e"
  shows "stopsTraversal e"
proof -
  define dl where "dl = (case opt of None \<Rightarrow> gcExamplesDelimiter (collectGlobalConfig rootNode)
                                       | Some d \<Rightarrow> d)"
  define r where "r = walkElement h rootNode
      (Obj [(''$schema'', Str ''https://json-schema.org/draft/2020-12/schema''),
            (''type'', Str ''object''), (''properties'', Obj []), (''required'', Arr [])])
      \<lparr>travAliases = Map.empty, inlineSemantic = None\<rparr>
      (collectMetaSemantics rootNode dl) dl"
  have ok: "okResult r" unfolding r_def by (rule walk_wf(2) [OF initial_schema_wf])
  have e: "extractSchemaFromAst h rootNode opt =
      (case r of Inl e \<Rightarrow> Inl e | Inr s1 \<Rightarrow> Inr (stableSortObject h s1))"
    unfolding extractSchemaFromAst_def Let_def r_def dl_def ..
  from assms ok show ?thesis unfolding e okResult_def by (cases r) auto
qed


lemma extract_canonical: "extractSchemaFromAst h rootNode opt = Inr s \<Longrightarrow> canonical h s"
  using extract_Inr stableSortObject_canonical by blast

section \<open>Navigation\<close>

lemma propertyOf_wf:
  assumes "wfS True n"
  shows "propertyOf n k = Undefined
         \<or> (wfS True (propertyOf n k) \<and> childOK (requiredOf n) k (propertyOf n k))"
proof -
  from assms obtain kvs where n: "n = Obj kvs" using wfS_is_object by blast
  note w = assms [unfolded n wfS_node]
  show ?thesis
  proof (cases "map_of kvs ''properties''")
    case None
    then show ?thesis by (simp add: propertyOf_def n)
  next
    case (Some v)
    with w obtain ps where v: "v = Obj ps"
      and ch: "\<And>k n. map_of ps k = Some n \<Longrightarrow> wfS True n \<and> childOK (requiredOf (Obj kvs)) k n"
      by blast
    show ?thesis
    proof (cases "map_of ps k")
      case None
      then show ?thesis using Some v by (simp add: propertyOf_def n)
    next
      case s: (Some c)
      have "propertyOf n k = c" using Some v s by (simp add: propertyOf_def n)
      then show ?thesis using ch [OF s] unfolding n by simp
    qed
  qed
qed

lemma items_wf:
  assumes "wfS True n"
  shows "ownProp n ''items'' = Undefined \<or> wfS True (ownProp n ''items'')"
proof -
  from assms obtain kvs where n: "n = Obj kvs" using wfS_is_object by blast
  note w = assms [unfolded n wfS_node]
  show ?thesis
  proof (cases "map_of kvs ''items''")
    case None
    then show ?thesis by (simp add: n)
  next
    case (Some v)
    with w have "wfS True v" by blast
    then show ?thesis using Some by (simp add: n)
  qed
qed

lemma childAt_wf:
  assumes "wfS True n"
  shows "childAt n part = Undefined \<or> wfS True (childAt n part)"
proof (cases "propertyOf n (pathKey part) = Undefined")
  case True
  then show ?thesis by (simp add: childAt_def)
next
  case False
  with propertyOf_wf [OF assms, of "pathKey part"] have "wfS True (propertyOf n (pathKey part))"
    by blast
  from items_wf [OF this] this show ?thesis by (auto simp: childAt_def)
qed

lemma childAt_Undefined [simp]: "childAt Undefined part = Undefined"
  by (simp add: childAt_def propertyOf_def)

lemma schemaAt_Undefined [simp]: "schemaAt Undefined path = Undefined"
  by (induction path) simp_all

lemma schemaAt_wf:
  "wfS True s \<Longrightarrow> schemaAt s path = Undefined \<or> wfS True (schemaAt s path)"
proof (induction path arbitrary: s)
  case Nil
  then show ?case by simp
next
  case (Cons part rest)
  from childAt_wf [OF Cons.prems, of part] show ?case
  proof
    assume "childAt s part = Undefined"
    then show ?thesis by simp
  next
    assume "wfS True (childAt s part)"
    from Cons.IH [OF this] show ?thesis by simp
  qed
qed

lemma hasChildren_Undefined [simp]: "\<not> hasChildren Undefined"
  by (simp add: hasChildren_def)

lemma requiredOf_Undefined [simp]: "requiredOf Undefined = []"
  by (simp add: requiredOf_def)

lemma propertyOf_Undefined [simp]: "propertyOf Undefined k = Undefined"
  by (simp add: propertyOf_def)


lemma optional_nullable:
  assumes "wfS True n" and "propertyOf n k \<noteq> Undefined" and "Str k \<notin> set (requiredOf n)"
  shows "isNullableType (ownProp (propertyOf n k) ''type'') \<and> \<not> hasChildren (propertyOf n k)"
  using propertyOf_wf [OF assms(1), of k] assms(2,3) by (auto simp: childOK_def)


lemma optional_nullable_at:
  assumes "wfS True s" and "propertyOf (schemaAt s path) k \<noteq> Undefined"
    and "Str k \<notin> set (requiredOf (schemaAt s path))"
  shows "isNullableType (ownProp (propertyOf (schemaAt s path) k) ''type'')
         \<and> \<not> hasChildren (propertyOf (schemaAt s path) k)"
proof -
  from schemaAt_wf [OF assms(1), of path] assms(2) have "wfS True (schemaAt s path)" by auto
  from optional_nullable [OF this assms(2,3)] show ?thesis .
qed

section \<open>The effect of ensurePathNode\<close>


lemma requiredOf_set_properties [simp]:
  "requiredOf (Obj (setProp ''properties'' v kvs)) = requiredOf (Obj kvs)"
  by (simp add: requiredOf_Obj)

lemma propertyOf_pushRequired [simp]:
  "propertyOf (Obj (pushRequired kvs q)) k = propertyOf (Obj kvs) k"
  by (simp add: propertyOf_def)

lemma propertyOf_set_child [simp]:
  "propertyOf (Obj (setProp ''properties'' (Obj (setProp k c ps)) kvs)) k = c"
  by (simp add: propertyOf_def)




lemma childAt_emptyObjectSchema [simp]: "childAt emptyObjectSchema part = Undefined"
  by (simp add: childAt_def propertyOf_def emptyObjectSchema_def)

lemma requiredOf_schemaAt_fresh [simp]: "requiredOf (schemaAt emptyObjectSchema pre) = []"
  by (cases pre) (simp_all add: requiredOf_def emptyObjectSchema_def [of] childAt_emptyObjectSchema [unfolded emptyObjectSchema_def])


lemma ownProp_spread_leaf:
  assumes "distinct (map fst leaf)" and "map_of leaf q = Some t"
  shows "ownProp (Obj (spread (Obj ekvs) leaf)) q = t"
  using assms by (simp add: map_of_spread map_of_rev_distinct)

section \<open>Reading a sorted schema\<close>

lemma ownProp_sorted_plain:
  assumes "wfS True n" and "q \<noteq> ''required''"
  shows "ownProp (stableSortObject h n) q = stableSortObject h (ownProp n q)"
proof -
  from assms(1) obtain kvs where n: "n = Obj kvs" using wfS_is_object by blast
  from assms(1) have d: "distinct (map fst kvs)" unfolding n wfS_node by blast
  show ?thesis unfolding n ownProp_sorted [OF d] ownProp_Obj using assms(2)
    by (simp add: sortedValue_def split: option.splits)
qed

lemma propertyOf_sorted:
  assumes "wfS True n"
  shows "propertyOf (stableSortObject h n) k = stableSortObject h (propertyOf n k)"
proof -
  from assms(1) obtain kvs where n: "n = Obj kvs" using wfS_is_object by blast
  note w = assms [unfolded n wfS_node]
  have p: "ownProp (stableSortObject h n) ''properties'' = stableSortObject h (ownProp n ''properties'')"
    by (rule ownProp_sorted_plain [OF assms]) simp
  show ?thesis
  proof (cases "map_of kvs ''properties''")
    case None
    then show ?thesis unfolding propertyOf_def p by (simp add: n)
  next
    case (Some v)
    with w obtain ps where v: "v = Obj ps" and dps: "distinct (map fst ps)"
      and ch: "\<And>k c. map_of ps k = Some c \<Longrightarrow> wfS True c" by blast
    have g: "ownProp n ''properties'' = Obj ps" using Some v by (simp add: n)
    show ?thesis
    proof (cases "map_of ps k")
      case None
      then show ?thesis unfolding propertyOf_def p g ownProp_sorted [OF dps] by simp
    next
      case c: (Some c)
      from ch [OF c] have "\<not> isArray c" by (auto dest: wfS_is_object)
      then show ?thesis unfolding propertyOf_def p g ownProp_sorted [OF dps] using c
        by (simp add: sortedValue_def)
    qed
  qed
qed

lemma childAt_sorted:
  assumes "wfS True n"
  shows "childAt (stableSortObject h n) part = stableSortObject h (childAt n part)"
proof (cases "propertyOf n (pathKey part) = Undefined")
  case True
  then show ?thesis unfolding childAt_def propertyOf_sorted [OF assms] by simp
next
  case False
  with propertyOf_wf [OF assms, of "pathKey part"] have w: "wfS True (propertyOf n (pathKey part))"
    by blast
  have "ownProp (stableSortObject h (propertyOf n (pathKey part))) ''items''
      = stableSortObject h (ownProp (propertyOf n (pathKey part)) ''items'')"
    by (rule ownProp_sorted_plain [OF w]) simp
  then show ?thesis unfolding childAt_def propertyOf_sorted [OF assms] by simp
qed

lemma schemaAt_sorted:
  "wfS True s \<Longrightarrow> schemaAt (stableSortObject h s) path = stableSortObject h (schemaAt s path)"
proof (induction path arbitrary: s)
  case Nil
  show ?case by simp
next
  case (Cons part rest)
  from childAt_wf [OF Cons.prems, of part] show ?case
  proof
    assume "childAt s part = Undefined"
    then show ?thesis by (simp add: childAt_sorted [OF Cons.prems])
  next
    assume "wfS True (childAt s part)"
    from Cons.IH [OF this] show ?thesis by (simp add: childAt_sorted [OF Cons.prems])
  qed
qed

lemma set_requiredOf_sorted:
  assumes "wfS True n \<or> n = Undefined"
  shows "set (requiredOf (stableSortObject h n)) = set (requiredOf n)"
  using assms
proof
  assume w: "wfS True n"
  then obtain kvs where n: "n = Obj kvs" using wfS_is_object by blast
  from w have d: "distinct (map fst kvs)" unfolding n wfS_node by blast
  show ?thesis unfolding n requiredOf_sorted [OF d] by simp
next
  assume "n = Undefined"
  then show ?thesis by simp
qed

lemma set_requiredOf_sorted_at:
  assumes "wfS True s"
  shows "set (requiredOf (schemaAt (stableSortObject h s) path)) = set (requiredOf (schemaAt s path))"
  unfolding schemaAt_sorted [OF assms]
  by (rule set_requiredOf_sorted) (use schemaAt_wf [OF assms, of path] in blast)

lemma type_sorted_at:
  assumes "wfS True s" and "ownProp (propertyOf (schemaAt s path) k) ''type'' = Str t"
  shows "ownProp (propertyOf (schemaAt (stableSortObject h s) path) k) ''type'' = Str t"
proof -
  from assms(2) have "propertyOf (schemaAt s path) k \<noteq> Undefined" by auto
  then have "schemaAt s path \<noteq> Undefined" by auto
  with schemaAt_wf [OF assms(1), of path] have w: "wfS True (schemaAt s path)" by blast
  from propertyOf_wf [OF w, of k] \<open>propertyOf (schemaAt s path) k \<noteq> Undefined\<close>
  have wp: "wfS True (propertyOf (schemaAt s path) k)" by blast
  have "ownProp (stableSortObject h (propertyOf (schemaAt s path) k)) ''type''
      = stableSortObject h (ownProp (propertyOf (schemaAt s path) k) ''type'')"
    by (rule ownProp_sorted_plain [OF wp]) simp
  then show ?thesis
    unfolding schemaAt_sorted [OF assms(1)] propertyOf_sorted [OF w] assms(2) by simp
qed

section \<open>Required lists of a canonical schema\<close>

lemma sorted_default_iff: "sorted default xs \<longleftrightarrow> sorted_wrt (\<le>) (xs :: 'a :: linorder list)"
proof (induction xs rule: induct_list012)
  case (3 x y zs)
  have "sorted_wrt (\<le>) (x # y # zs) \<longleftrightarrow> x \<le> y \<and> sorted_wrt (\<le>) (y # zs)"
    by (rule sorted2)
  then show ?case using 3 by (simp add: not_less del: sorted_wrt.simps)
qed simp_all

lemma canonical_lookup:
  assumes "canonical h (Obj kvs)" and "map_of kvs k = Some v" and "\<not> isArray v"
  shows "canonical h v"
proof -
  from assms(2) have "(k, v) \<in> set kvs" by (rule map_of_SomeD)
  with assms(1,3) show ?thesis by auto
qed

lemma canonical_ownProp:
  assumes "wfS True n" and "canonical h n" and "q = ''properties'' \<or> q = ''items''"
  shows "canonical h (ownProp n q)"
proof -
  from assms(1) obtain kvs where n: "n = Obj kvs" using wfS_is_object by blast
  note w = assms(1) [unfolded n wfS_node]
  show ?thesis
  proof (cases "map_of kvs q")
    case None
    then show ?thesis by (simp add: n)
  next
    case (Some v)
    from assms(3) w Some have "(\<exists>ps. v = Obj ps) \<or> wfS True v" by blast
    then have "\<not> isArray v" by (auto dest: wfS_is_object)
    from canonical_lookup [OF assms(2) [unfolded n] Some this] show ?thesis
      using Some by (simp add: n)
  qed
qed

lemma canonical_propertyOf:
  assumes "wfS True n" and "canonical h n"
  shows "canonical h (propertyOf n k)"
proof -
  from assms(1) obtain kvs where n: "n = Obj kvs" using wfS_is_object by blast
  note w = assms(1) [unfolded n wfS_node]
  have cp: "canonical h (ownProp n ''properties'')"
    by (rule canonical_ownProp [OF assms]) simp
  show ?thesis
  proof (cases "map_of kvs ''properties''")
    case None
    then show ?thesis by (simp add: n propertyOf_def)
  next
    case (Some v)
    with w obtain ps where v: "v = Obj ps"
      and ch: "\<And>k c. map_of ps k = Some c \<Longrightarrow> wfS True c" by blast
    have g: "ownProp n ''properties'' = Obj ps" using Some v by (simp add: n)
    show ?thesis
    proof (cases "map_of ps k")
      case None
      then show ?thesis unfolding propertyOf_def g by simp
    next
      case c: (Some c)
      from ch [OF c] have "\<not> isArray c" by (auto dest: wfS_is_object)
      from canonical_lookup [OF cp [unfolded g] c this] show ?thesis
        unfolding propertyOf_def g using c by simp
    qed
  qed
qed

lemma canonical_childAt:
  assumes "wfS True n" and "canonical h n"
  shows "canonical h (childAt n part)"
proof (cases "propertyOf n (pathKey part) = Undefined")
  case True
  then show ?thesis by (simp add: childAt_def)
next
  case False
  with propertyOf_wf [OF assms(1), of "pathKey part"]
  have w: "wfS True (propertyOf n (pathKey part))" by blast
  from canonical_ownProp [OF w canonical_propertyOf [OF assms]]
    canonical_propertyOf [OF assms, of "pathKey part"]
  show ?thesis by (simp add: childAt_def)
qed

lemma canonical_schemaAt:
  "wfS True s \<Longrightarrow> canonical h s \<Longrightarrow> canonical h (schemaAt s path)"
proof (induction path arbitrary: s)
  case Nil
  then show ?case by simp
next
  case (Cons part rest)
  from childAt_wf [OF Cons.prems(1), of part] show ?case
  proof
    assume "childAt s part = Undefined"
    then show ?thesis by simp
  next
    assume "wfS True (childAt s part)"
    from Cons.IH [OF this canonical_childAt [OF Cons.prems]] show ?thesis by simp
  qed
qed

lemma required_sorted:
  assumes "wfS True n" and "canonical h n"
  shows "\<exists>ks. requiredOf n = map Str ks \<and> sorted_wrt (\<le>) ks"
proof -
  from assms(1) obtain kvs where n: "n = Obj kvs" using wfS_is_object by blast
  note w = assms(1) [unfolded n wfS_node]
  show ?thesis
  proof (cases "map_of kvs ''required''")
    case None
    then have "requiredOf n = map Str []" by (simp add: n requiredOf_Obj)
    then show ?thesis by (metis sorted_wrt.simps(1))
  next
    case (Some r)
    with w have sl: "isStringList r" by blast
    then obtain xs where r: "r = Arr xs" by (cases r) auto
    define ks where "ks = map (jsString h) xs"
    have allstr: "\<forall>x \<in> set xs. \<exists>s. x = Str s"
    proof
      fix x assume "x \<in> set xs"
      with sl show "\<exists>s. x = Str s" unfolding r by (cases x) (auto simp: list_all_iff)
    qed
    then have xs: "xs = map Str ks" unfolding ks_def by (induction xs) auto
    from allstr have f: "filter (\<lambda>x. x \<noteq> Undefined) xs = xs" by (intro filter_True) auto
    from Some have "(''required'', r) \<in> set kvs" by (rule map_of_SomeD)
    with assms(2) have "defaultSorted h xs" unfolding n r by auto
    then have "sorted (key (jsString h) default) xs" unfolding defaultSorted_def f by simp
    then have "sorted default ks" unfolding sorted_key_map ks_def .
    then have "sorted_wrt (\<le>) ks" unfolding sorted_default_iff .
    moreover have "requiredOf n = map Str ks" using Some xs by (simp add: n requiredOf_Obj r)
    ultimately show ?thesis by blast
  qed
qed

lemma required_sorted_at:
  assumes "wfS True s" and "canonical h s"
  shows "\<exists>ks. requiredOf (schemaAt s path) = map Str ks \<and> sorted_wrt (\<le>) ks"
proof -
  from schemaAt_wf [OF assms(1), of path] show ?thesis
  proof
    assume "schemaAt s path = Undefined"
    then have "requiredOf (schemaAt s path) = map Str []" by simp
    then show ?thesis by (metis sorted_wrt.simps(1))
  next
    assume "wfS True (schemaAt s path)"
    from required_sorted [OF this canonical_schemaAt [OF assms]] show ?thesis .
  qed
qed

section \<open>The worked examples\<close>

lemma nested_delimiter: "gcExamplesDelimiter (collectGlobalConfig nestedTemplate) = '';''"
  by code_simp

lemma nested_walk:
  "walkElement h nestedTemplate
     (Obj [(''$schema'', Str ''https://json-schema.org/draft/2020-12/schema''),
           (''type'', Str ''object''), (''properties'', Obj []), (''required'', Arr [])])
     \<lparr>travAliases = Map.empty, inlineSemantic = None\<rparr>
     (collectMetaSemantics nestedTemplate '';'') '';'' = Inr nestedWalked"
  by code_simp

lemma nested_extract:
  "extractSchemaFromAst h nestedTemplate None = Inr (stableSortObject h nestedWalked)"
  by (simp add: extractSchemaFromAst_def nested_delimiter nested_walk)

lemma nestedWalked_wf: "wfS True nestedWalked"
  using walk_wf(2) [OF initial_schema_wf, of plainHost nestedTemplate
      "\<lparr>travAliases = Map.empty, inlineSemantic = None\<rparr>"
      "collectMetaSemantics nestedTemplate '';''" "'';''"]
  unfolding nested_walk okResult_def by simp

lemma nestedWalked_facts:
  "Str ''contracts'' \<in> set (requiredOf (schemaAt nestedWalked []))"
  "ownProp (propertyOf (schemaAt nestedWalked []) ''contracts'') ''type'' = Str ''array''"
  "ownProp (schemaAt nestedWalked [''contracts[]'']) ''type'' = Str ''object''"
  "Str ''items'' \<in> set (requiredOf (schemaAt nestedWalked [''contracts[]'']))"
  "ownProp (propertyOf (schemaAt nestedWalked [''contracts[]'']) ''items'') ''type'' = Str ''array''"
  "ownProp (schemaAt nestedWalked [''contracts[]'', ''items[]'']) ''type'' = Str ''object''"
  "Str ''name'' \<in> set (requiredOf (schemaAt nestedWalked [''contracts[]'', ''items[]'']))"
  "ownProp (propertyOf (schemaAt nestedWalked [''contracts[]'', ''items[]'']) ''name'') ''type''
     = Str ''string''"
  by code_simp+

lemma node_type_sorted_at:
  assumes "wfS True s" and "ownProp (schemaAt s path) ''type'' = Str t"
  shows "ownProp (schemaAt (stableSortObject h s) path) ''type'' = Str t"
proof -
  from assms(2) have "schemaAt s path \<noteq> Undefined" by auto
  with schemaAt_wf [OF assms(1), of path] have w: "wfS True (schemaAt s path)" by blast
  have "ownProp (stableSortObject h (schemaAt s path)) ''type''
      = stableSortObject h (ownProp (schemaAt s path) ''type'')"
    by (rule ownProp_sorted_plain [OF w]) simp
  then show ?thesis unfolding schemaAt_sorted [OF assms(1)] assms(2) by simp
qed

lemma nested_iteration_schema:
  "\<exists>s. extractSchemaFromAst h nestedTemplate None = Inr s
      \<and> Str ''contracts'' \<in> set (requiredOf (schemaAt s []))
      \<and> ownProp (propertyOf (schemaAt s []) ''contracts'') ''type'' = Str ''array''
      \<and> ownProp (schemaAt s [''contracts[]'']) ''type'' = Str ''object''
      \<and> Str ''items'' \<in> set (requiredOf (schemaAt s [''contracts[]'']))
      \<and> ownProp (propertyOf (schemaAt s [''contracts[]'']) ''items'') ''type'' = Str ''array''
      \<and> ownProp (schemaAt s [''contracts[]'', ''items[]'']) ''type'' = Str ''object''
      \<and> Str ''name'' \<in> set (requiredOf (schemaAt s [''contracts[]'', ''items[]'']))
      \<and> ownProp (propertyOf (schemaAt s [''contracts[]'', ''items[]'']) ''name'') ''type''
          = Str ''string''"
proof -
  note w = nestedWalked_wf
  note r = set_requiredOf_sorted_at [OF w, of h]
  note t = type_sorted_at [OF w, of _ _ _ h]
  note n = node_type_sorted_at [OF w, of _ _ h]
  show ?thesis
    unfolding nested_extract
    using nestedWalked_facts(1,4,7) [folded r]
      t [OF nestedWalked_facts(2)] n [OF nestedWalked_facts(3)] t [OF nestedWalked_facts(5)]
      n [OF nestedWalked_facts(6)] t [OF nestedWalked_facts(8)]
    by blast
qed


lemma repeated_delimiter: "gcExamplesDelimiter (collectGlobalConfig repeatedTemplate) = '';''"
  by code_simp

lemma repeated_walk:
  "walkElement h repeatedTemplate
     (Obj [(''$schema'', Str ''https://json-schema.org/draft/2020-12/schema''),
           (''type'', Str ''object''), (''properties'', Obj []), (''required'', Arr [])])
     \<lparr>travAliases = Map.empty, inlineSemantic = None\<rparr>
     (collectMetaSemantics repeatedTemplate '';'') '';'' = Inr repeatedWalked"
  by code_simp

lemma repeated_extract:
  "extractSchemaFromAst h repeatedTemplate None = Inr (stableSortObject h repeatedWalked)"
  by (simp add: extractSchemaFromAst_def repeated_delimiter repeated_walk)

lemma repeatedWalked_wf: "wfS True repeatedWalked"
  using walk_wf(2) [OF initial_schema_wf, of plainHost repeatedTemplate
      "\<lparr>travAliases = Map.empty, inlineSemantic = None\<rparr>"
      "collectMetaSemantics repeatedTemplate '';''" "'';''"]
  unfolding repeated_walk okResult_def by simp

lemma repeatedWalked_facts:
  "Str ''contracts'' \<in> set (requiredOf (schemaAt repeatedWalked []))"
  "Str ''items'' \<in> set (requiredOf (schemaAt repeatedWalked [''contracts[]'']))"
  "ownProp (schemaAt repeatedWalked [''contracts[]'', ''items[]'']) ''type'' = Str ''object''"
  "propertyOf (schemaAt repeatedWalked [''contracts[]'', ''items[]'']) ''name'' = Undefined"
  "Str ''name'' \<notin> set (requiredOf (schemaAt repeatedWalked [''contracts[]'', ''items[]'']))"
  by code_simp+

lemma twice_delimiter: "gcExamplesDelimiter (collectGlobalConfig twiceTemplate) = '';''"
  by code_simp

lemma twice_walk:
  "walkElement h twiceTemplate
     (Obj [(''$schema'', Str ''https://json-schema.org/draft/2020-12/schema''),
           (''type'', Str ''object''), (''properties'', Obj []), (''required'', Arr [])])
     \<lparr>travAliases = Map.empty, inlineSemantic = None\<rparr>
     (collectMetaSemantics twiceTemplate '';'') '';'' = Inr twiceWalked"
  by code_simp

lemma twice_extract:
  "extractSchemaFromAst h twiceTemplate None = Inr (stableSortObject h twiceWalked)"
  by (simp add: extractSchemaFromAst_def twice_delimiter twice_walk)

lemma twiceWalked_wf: "wfS True twiceWalked"
  using walk_wf(2) [OF initial_schema_wf, of plainHost twiceTemplate
      "\<lparr>travAliases = Map.empty, inlineSemantic = None\<rparr>"
      "collectMetaSemantics twiceTemplate '';''" "'';''"]
  unfolding twice_walk okResult_def by simp

lemma twiceWalked_facts:
  "Str ''note'' \<in> set (requiredOf (schemaAt twiceWalked []))"
  "propertyOf twiceWalked ''note'' = Obj [(''type'', Arr [Str ''string'', Str ''null''])]"
  by code_simp+

lemma inherited_delimiter: "gcExamplesDelimiter (collectGlobalConfig inheritedTemplate) = '';''"
  by code_simp

lemma inherited_walk:
  "walkElement h inheritedTemplate
     (Obj [(''$schema'', Str ''https://json-schema.org/draft/2020-12/schema''),
           (''type'', Str ''object''), (''properties'', Obj []), (''required'', Arr [])])
     \<lparr>travAliases = Map.empty, inlineSemantic = None\<rparr>
     (collectMetaSemantics inheritedTemplate '';'') '';''
   = Inl (BeyondModel ''a node is an object of the runtime'')"
  by code_simp

lemma inherited_first_segment:
  "walkSegment h
     (Obj [(''$schema'', Str ''https://json-schema.org/draft/2020-12/schema''),
           (''type'', Str ''object''), (''properties'', Obj []), (''required'', Arr [])])
     \<lparr>travAliases = Map.empty, inlineSemantic = None\<rparr> Map.empty
     (Interpolation (InterpolationSegment ''x.constructor'' TString True [] []))
   = Inr (Obj [(''$schema'', Str ''https://json-schema.org/draft/2020-12/schema''),
               (''type'', Str ''object''),
               (''properties'',
                Obj [(''x'',
                      Obj [(''type'', Str ''object''),
                           (''properties'',
                            Obj [(''constructor'',
                                  Obj [(''type'', Arr [Str ''string'', Str ''null''])])]),
                           (''required'', Arr [])])]),
               (''required'', Arr [Str ''x''])])"
  by code_simp

lemma inherited_lookup:
  "propertyOr [] ''constructor'' emptyObjectSchema
   = Builtin (BuiltinFunction ''Object.prototype.constructor'')"
  "ensureObjectProperties (Builtin (BuiltinFunction ''Object.prototype.constructor''))
   = Inl (BeyondModel ''a node is an object of the runtime'')"
  by code_simp+


section \<open>The claims on the schema\<close>

text \<open>C2. The extractor is not a function of the tree alone. In the template
  \<^verbatim>\<open><p>{{ x.constructor:string? }}{{ a.constructor.b:string }}</p>\<close> the first
  interpolation compiles as any other: the leaf \<open>constructor\<close> of \<open>x\<close> is the spread of
  the function that \<open>properties["constructor"]\<close> inherits, which has no enumerable
  property of its own, and of the leaf schema. In the second interpolation the part
  \<open>constructor\<close> is not the last one: the node that the code looks up under the fresh
  properties of \<open>a\<close> is that same function of the runtime, and \<open>ensureObjectProperties\<close>
  writes on it. The traversal of the template, and with it the compilation, reaches that
  write on every host. What the function holds is read by the first interpolation of the
  next compilation.\<close>

theorem inherited_node_is_written:
  "walkSegment h
     (Obj [(''$schema'', Str ''https://json-schema.org/draft/2020-12/schema''),
           (''type'', Str ''object''), (''properties'', Obj []), (''required'', Arr [])])
     \<lparr>travAliases = Map.empty, inlineSemantic = None\<rparr> Map.empty
     (Interpolation (InterpolationSegment ''x.constructor'' TString True [] []))
   = Inr (Obj [(''$schema'', Str ''https://json-schema.org/draft/2020-12/schema''),
               (''type'', Str ''object''),
               (''properties'',
                Obj [(''x'',
                      Obj [(''type'', Str ''object''),
                           (''properties'',
                            Obj [(''constructor'',
                                  Obj [(''type'', Arr [Str ''string'', Str ''null''])])]),
                           (''required'', Arr [])])]),
               (''required'', Arr [Str ''x''])])
   \<and> propertyOr [] ''constructor'' emptyObjectSchema
       = Builtin (BuiltinFunction ''Object.prototype.constructor'')
   \<and> ensureObjectProperties (Builtin (BuiltinFunction ''Object.prototype.constructor''))
       = Inl (BeyondModel ''a node is an object of the runtime'')
   \<and> extractSchemaFromAst h inheritedTemplate None
       = Inl (BeyondModel ''a node is an object of the runtime'')"
proof -
  have "extractSchemaFromAst h inheritedTemplate None
      = Inl (BeyondModel ''a node is an object of the runtime'')"
    by (simp add: extractSchemaFromAst_def inherited_delimiter inherited_walk)
  then show ?thesis using inherited_first_segment [of h] inherited_lookup by simp
qed



text \<open>C3. In the template \<^verbatim>\<open><p>{{ note:string }}{{ note:string? }}</p>\<close> the path
  \<open>note\<close> is interpolated twice, the second time declared nullable: the first
  interpolation puts \<open>note\<close> into the required list, the second one makes its type the
  union with null and leaves the required list as it is. In the schema returned, on every
  host, \<open>note\<close> has the nullable type and is in the required list of its parent.\<close>

theorem nullable_leaf_stays_required:
  "\<exists>s. extractSchemaFromAst h twiceTemplate None = Inr s
      \<and> Str ''note'' \<in> set (requiredOf s)
      \<and> ownProp (propertyOf s ''note'') ''type'' = Arr [Str ''string'', Str ''null'']"
proof -
  note w = twiceWalked_wf
  have r: "Str ''note'' \<in> set (requiredOf (stableSortObject h twiceWalked))"
    using twiceWalked_facts(1) set_requiredOf_sorted_at [OF w, of h "[]"] by simp
  have p: "propertyOf (stableSortObject h twiceWalked) ''note''
      = stableSortObject h (Obj [(''type'', Arr [Str ''string'', Str ''null''])])"
    unfolding propertyOf_sorted [OF w] twiceWalked_facts(2) ..
  have o: "ownProp (stableSortObject h (Obj [(''type'', Arr [Str ''string'', Str ''null''])])) ''type''
      = sortedValue h ''type'' (Arr [Str ''string'', Str ''null''])"
    by (subst ownProp_sorted) simp_all
  have t: "ownProp (propertyOf (stableSortObject h twiceWalked) ''note'') ''type''
      = Arr [Str ''string'', Str ''null'']"
    unfolding p o by (simp add: sortedValue_def)
  show ?thesis unfolding twice_extract using r t by blast
qed

text \<open>C4. In the template
  \<^verbatim>\<open><section data-page="contracts as contract"><li data-repeat="contract.items as item">{{ item.name:string }}</li><li data-repeat="contract.items as item">more</li></section>\<close>
  the interpolation \<open>item.name:string\<close> is inside the repetition inside the page, and a
  second element repeats the same items. The second \<open>ensureArrayPath\<close> merges the schema
  of an empty array over the node of \<open>contract.items\<close>, and its \<open>items\<close> replace the
  item schema that held \<open>name\<close>. In the schema returned, on every host, \<open>contracts\<close> and
  \<open>items\<close> are required, and the item schema of \<open>items\<close> is an object that has no
  property \<open>name\<close> and does not require it.\<close>

theorem repeated_iteration_resets_items:
  "\<exists>s. extractSchemaFromAst h repeatedTemplate None = Inr s
      \<and> Str ''contracts'' \<in> set (requiredOf (schemaAt s []))
      \<and> Str ''items'' \<in> set (requiredOf (schemaAt s [''contracts[]'']))
      \<and> ownProp (schemaAt s [''contracts[]'', ''items[]'']) ''type'' = Str ''object''
      \<and> propertyOf (schemaAt s [''contracts[]'', ''items[]'']) ''name'' = Undefined
      \<and> Str ''name'' \<notin> set (requiredOf (schemaAt s [''contracts[]'', ''items[]'']))"
proof -
  note w = repeatedWalked_wf
  note r = set_requiredOf_sorted_at [OF w, of h]
  note n = node_type_sorted_at [OF w, of _ _ h]
  have p: "propertyOf (schemaAt (stableSortObject h repeatedWalked) [''contracts[]'', ''items[]''])
             ''name'' = Undefined"
  proof -
    from schemaAt_wf [OF w, of "[''contracts[]'', ''items[]'']"] repeatedWalked_facts(3)
    have wi: "wfS True (schemaAt repeatedWalked [''contracts[]'', ''items[]''])" by auto
    show ?thesis
      unfolding schemaAt_sorted [OF w] propertyOf_sorted [OF wi] repeatedWalked_facts(4) by simp
  qed
  show ?thesis
    unfolding repeated_extract
    using repeatedWalked_facts(1,2,5) [folded r] n [OF repeatedWalked_facts(3)] p
    by blast
qed

end
